theory Spec2Isabelle
  imports Main "HOL-Library.Word" "HOL-Library.Sublist"
begin

section \<open>JavaScript strings\<close>

text \<open>
  A JavaScript string is a sequence of UTF-16 code units; \<open>length\<close>, \<open>endsWith\<close>,
  \<open>trim\<close>, \<open>split\<close> and \<open>replace\<close> all work on code units. A string is therefore a
  list of 16-bit words. \<open>str\<close> writes an ASCII literal.
\<close>

type_synonym jschar = "16 word"
type_synonym jsstring = "jschar list"

definition str :: "string \<Rightarrow> jsstring" where
  "str cs = map of_char cs"

text \<open>
  The code units matched by the regular expression class \<open>\s\<close> and removed by
  \<open>String.prototype.trim\<close>: ECMAScript's WhiteSpace and LineTerminator productions
  (TAB, LF, VT, FF, CR, SP, NBSP, the Unicode space separators, LS, PS and ZWNBSP).
\<close>

definition isWhiteSpace :: "jschar \<Rightarrow> bool" where
  "isWhiteSpace c \<longleftrightarrow>
     c \<in> set [0x9, 0xA, 0xB, 0xC, 0xD, 0x20, 0xA0, 0x1680,
              0x2028, 0x2029, 0x202F, 0x205F, 0x3000, 0xFEFF]
     \<or> (0x2000 \<le> c \<and> c \<le> 0x200A)"

text \<open>\<open>s.trim()\<close>\<close>

definition trim :: "jsstring \<Rightarrow> jsstring" where
  "trim s = rev (dropWhile isWhiteSpace (rev (dropWhile isWhiteSpace s)))"

text \<open>
  \<open>s.replace(/[c]{2,}/g, "c")\<close>: scanning from the left, every maximal run of two or
  more \<open>c\<close> is replaced by a single \<open>c\<close>; any other code unit is copied.
\<close>

function replace_runs :: "jschar \<Rightarrow> jsstring \<Rightarrow> jsstring" where
  "replace_runs c [] = []"
| "replace_runs c [x] = [x]"
| "replace_runs c (x # y # ys) =
     (if x = c \<and> y = c then c # replace_runs c (dropWhile (\<lambda>z. z = c) ys)
      else x # replace_runs c (y # ys))"
  by pat_completeness auto
termination
  by (relation "measure (\<lambda>(c, s). length s)")
     (auto intro: le_less_trans [OF length_dropWhile_le])

text \<open>
  \<open>s.split(/\s+/)\<close>: the text before the next run of white space is a piece, and the
  scan goes on after the run; the text after the last run (possibly empty) is the last
  piece. A string without white space, the empty string included, is its only piece.
\<close>

function split_ws :: "jsstring \<Rightarrow> jsstring list" where
  "split_ws s =
     (case dropWhile (\<lambda>c. \<not> isWhiteSpace c) s of
        [] \<Rightarrow> [s]
      | w # rest \<Rightarrow>
          takeWhile (\<lambda>c. \<not> isWhiteSpace c) s # split_ws (dropWhile isWhiteSpace rest))"
  by pat_completeness auto
termination
proof (relation "measure length", goal_cases)
  case 1
  show ?case by simp
next
  case (2 s w rest)
  have "length (dropWhile isWhiteSpace rest) \<le> length rest"
    by (rule length_dropWhile_le)
  also have "length rest < length (dropWhile (\<lambda>c. \<not> isWhiteSpace c) s)"
    using 2 by simp
  also have "\<dots> \<le> length s"
    by (rule length_dropWhile_le)
  finally show ?case by simp
qed

declare split_ws.simps [simp del]

text \<open>\<open>xs.join(sep)\<close> on an array of strings\<close>

fun join :: "jsstring \<Rightarrow> jsstring list \<Rightarrow> jsstring" where
  "join sep [] = []"
| "join sep [x] = x"
| "join sep (x # y # ys) = x @ sep @ join sep (y # ys)"

section \<open>cleanReasoningChain\<close>

text \<open>
  One round of the first loop: \<open>newTokens\<close> is the accumulator, \<open>t\<close> the current token.
\<close>

definition dedup_step :: "jsstring list \<Rightarrow> jsstring \<Rightarrow> jsstring list" where
  "dedup_step newTokens t =
     (if newTokens \<noteq> [] \<and> last newTokens = t then newTokens else newTokens @ [t])"

text \<open>
  One round of the second loop. \<open>last.endsWith(t)\<close> is \<open>suffix t last\<close>; the assignment
  \<open>fusedTokens[fusedTokens.length - 1] = t\<close> replaces the last element.
\<close>

definition fuse_step :: "jsstring list \<Rightarrow> jsstring \<Rightarrow> jsstring list" where
  "fuse_step fusedTokens t =
     (if fusedTokens \<noteq> [] then
        (let lst = last fusedTokens in
         if suffix t lst \<or> suffix lst t then
           (if length t > length lst then butlast fusedTokens @ [t] else fusedTokens)
         else fusedTokens @ [t])
      else fusedTokens @ [t])"

definition cleanReasoningChain :: "jsstring \<Rightarrow> jsstring" where
  "cleanReasoningChain text =
     (let simplifiedPunctuation = replace_runs 0x3F (replace_runs 0x2E text);
          tokens = split_ws simplifiedPunctuation;
          tokens = filter (\<lambda>t. trim t \<noteq> []) tokens;
          newTokens = foldl dedup_step [] tokens;
          fusedTokens = foldl fuse_step [] newTokens
      in join (str '' '') fusedTokens)"

section \<open>The stream classifier's input: parsed JSON\<close>

text \<open>
  The value \<open>JSON.parse\<close> returns. A number is kept as its \<open>ToString\<close> rendering (the
  program never computes with it; \<open>0\<close> and \<open>-0\<close>, the only falsy numbers JSON can
  denote, both render as \<open>0\<close>). An object is the list of its own properties, each key
  once. A JavaScript value that may be \<open>undefined\<close> is a \<open>json option\<close>.
\<close>

datatype json =
    JNull
  | JBool bool
  | JNum jsstring
  | JStr jsstring
  | JArr "json list"
  | JObj "(jsstring \<times> json) list"

text \<open>The property names the program reads; \<open>K_0\<close> is the index \<open>[0]\<close>.\<close>

datatype key = K_choices | K_0 | K_finish_reason | K_delta | K_reasoning_content | K_content

fun key_name :: "key \<Rightarrow> jsstring" where
  "key_name K_choices = str ''choices''"
| "key_name K_0 = str ''0''"
| "key_name K_finish_reason = str ''finish_reason''"
| "key_name K_delta = str ''delta''"
| "key_name K_reasoning_content = str ''reasoning_content''"
| "key_name K_content = str ''content''"

text \<open>
  \<open>v.k\<close> and \<open>v[0]\<close>: reading a property of \<open>null\<close> or \<open>undefined\<close> throws a TypeError
  (\<open>Inl ()\<close>); a string has its first code unit at index 0, an array its first
  element, and neither has any of the other names; numbers and booleans have none.
\<close>

fun get :: "json option \<Rightarrow> key \<Rightarrow> unit + json option" where
  "get None k = Inl ()"
| "get (Some JNull) k = Inl ()"
| "get (Some (JObj kvs)) k = Inr (map_of kvs (key_name k))"
| "get (Some (JArr xs)) k = Inr (if k = K_0 then (case xs of [] \<Rightarrow> None | x # _ \<Rightarrow> Some x) else None)"
| "get (Some (JStr s)) k = Inr (if k = K_0 then (case s of [] \<Rightarrow> None | c # _ \<Rightarrow> Some (JStr [c])) else None)"
| "get (Some (JNum n)) k = Inr None"
| "get (Some (JBool b)) k = Inr None"

text \<open>\<open>v == null\<close>\<close>

fun nullish :: "json option \<Rightarrow> bool" where
  "nullish None = True"
| "nullish (Some JNull) = True"
| "nullish (Some _) = False"

text \<open>\<open>ToBoolean\<close>, as in \<open>if (v)\<close> and \<open>!v\<close>\<close>

fun truthy :: "json option \<Rightarrow> bool" where
  "truthy None = False"
| "truthy (Some JNull) = False"
| "truthy (Some (JBool b)) = b"
| "truthy (Some (JNum n)) = (n \<noteq> str ''0'')"
| "truthy (Some (JStr s)) = (s \<noteq> [])"
| "truthy (Some (JArr xs)) = True"
| "truthy (Some (JObj kvs)) = True"

text \<open>
  \<open>ToString\<close>, as applied by \<open>string + v\<close>; \<open>None\<close> is the TypeError of a value
  that cannot be converted. An array is its elements joined by commas, \<open>null\<close> elements
  as the empty string. A plain object is \<open>[object Object]\<close>, by the \<open>toString\<close> it
  inherits; an object with an own property \<open>toString\<close> has lost that method (a parsed
  value is never callable, and \<open>valueOf\<close> gives the object back), and the conversion
  throws, also for an element of an array.
\<close>

fun to_string :: "json \<Rightarrow> jsstring option" where
  "to_string JNull = Some (str ''null'')"
| "to_string (JBool b) = Some (if b then str ''true'' else str ''false'')"
| "to_string (JNum n) = Some n"
| "to_string (JStr s) = Some s"
| "to_string (JArr xs) =
     map_option (join (str '',''))
       (those (map (\<lambda>x. case x of JNull \<Rightarrow> Some [] | _ \<Rightarrow> to_string x) xs))"
| "to_string (JObj kvs) =
     (if map_of kvs (str ''toString'') = None then Some (str ''[object Object]'') else None)"

section \<open>Messages and the component's state\<close>

record message =
  content :: jsstring
  isUser :: bool
  reasoning :: "jsstring option"
  isComplete :: "bool option"
  showReasoning :: "bool option"

text \<open>
  The two \<open>useState\<close> cells both versions of the component have. State updaters are
  run by React, not by \<open>handleSend\<close>: an error an updater throws is not thrown into
  the handler, whose \<open>try\<close> blocks never see it, but fails the rendering of the
  component. \<open>renderFailed\<close> records that this has happened; from then on the other
  fields are what the handler goes on to ask for, no longer what is displayed.
\<close>

record ui =
  messages :: "message list"
  isLoading :: bool
  renderFailed :: bool

text \<open>
  The first version of \<open>ChatWindow\<close> adds three refs. State updaters passed to
  \<open>setMessages\<close> are applied in the order of the calls, each once; the refs they read
  and write are read and written at that point.
\<close>

record state = ui +
  answerMessageIndexRef :: int
  alreadyCreatedRef :: bool
  reasoningAccumulatorRef :: jsstring

text \<open>What a turn does besides changing the state: calls of the parser and of the console.\<close>

datatype effect = JSON_parse jsstring | Console_log jsstring | Console_error jsstring

text \<open>A value caught by \<open>catch (error)\<close>: an \<open>Error\<close> with its message, or anything else.\<close>

datatype thrown = Error jsstring | NotAnError

text \<open>
  What \<open>reader.read()\<close> delivers before it reports \<open>done\<close>: a chunk, here already
  decoded to text, or a rejection. What \<open>fetch\<close> does: it rejects, or resolves to a
  response with a status and possibly a body.
\<close>

datatype read_result = Chunk jsstring | Read_throws thrown

datatype fetch_result = Fetch_rejected thrown | Fetch_resolved nat "read_result list option"

definition response_ok :: "nat \<Rightarrow> bool" where
  "response_ok status \<longleftrightarrow> 200 \<le> status \<and> status \<le> 299"

text \<open>The decimal rendering of a status code in a template literal.\<close>

function dec :: "nat \<Rightarrow> jsstring" where
  "dec n = (if n < 10 then [of_nat (48 + n)] else dec (n div 10) @ [of_nat (48 + n mod 10)])"
  by pat_completeness auto
termination
  by (relation "measure id") auto

declare dec.simps [simp del]

definition user_message :: "jsstring \<Rightarrow> message" where
  "user_message prompt =
     \<lparr>content = prompt, isUser = True, reasoning = None, isComplete = None,
      showReasoning = None\<rparr>"

definition error_message :: "thrown \<Rightarrow> message" where
  "error_message e =
     \<lparr>content = str ''Error: '' @ (case e of Error m \<Rightarrow> m | NotAnError \<Rightarrow> str ''Unknown error''),
      isUser = False, reasoning = None, isComplete = None, showReasoning = None\<rparr>"

section \<open>The first version of the component\<close>

text \<open>
  The three updaters. \<open>newArr[idx]\<close> is truthy exactly when \<open>idx\<close> is a position of
  the list; \<open>newArr[idx].content || ''\<close> is the content, which is a string. The
  concatenation \<open>oldContent + contentChunk\<close> is evaluated inside the updater: when it
  throws, the list is not changed and the rendering fails.
\<close>

definition appendContentToFinalMessage :: "json \<Rightarrow> state \<Rightarrow> state" where
  "appendContentToFinalMessage contentChunk s =
     (let newArr = messages s; idx = answerMessageIndexRef s in
      if idx \<ge> 0 \<and> nat idx < length newArr then
        (let oldContent = content (newArr ! nat idx) in
         case to_string contentChunk of
           None \<Rightarrow> s\<lparr>renderFailed := True\<rparr>
         | Some text \<Rightarrow>
             s\<lparr>messages := newArr[nat idx :=
                 (newArr ! nat idx)\<lparr>content := oldContent @ text\<rparr>]\<rparr>)
      else s)"

definition createFinalMessage :: "state \<Rightarrow> state" where
  "createFinalMessage s =
     (let newArr = messages s @
            [\<lparr>content = [], isUser = False, reasoning = Some [], isComplete = Some False,
              showReasoning = Some True\<rparr>]
      in s\<lparr>messages := newArr, answerMessageIndexRef := int (length newArr) - 1\<rparr>)"

definition finalizeMessage :: "state \<Rightarrow> state" where
  "finalizeMessage s =
     (let deduplicatedReason = cleanReasoningChain (reasoningAccumulatorRef s);
          newArr = messages s; idx = answerMessageIndexRef s;
          s' = (if idx \<ge> 0 \<and> nat idx < length newArr then
                  s\<lparr>messages := newArr[nat idx :=
                       (newArr ! nat idx)\<lparr>isComplete := Some True,
                                            reasoning := Some deduplicatedReason\<rparr>]\<rparr>
                else s)
      in s'\<lparr>reasoningAccumulatorRef := []\<rparr>)"

text \<open>
  \<open>s.replace(pat, rep)\<close> with a string pattern: the first occurrence of \<open>pat\<close> is
  replaced (\<open>rep\<close> is taken literally here, the program's replacement being empty).
\<close>

fun replace_first :: "jsstring \<Rightarrow> jsstring \<Rightarrow> jsstring \<Rightarrow> jsstring" where
  "replace_first pat rep [] = (if pat = [] then rep else [])"
| "replace_first pat rep (x # xs) =
     (if prefix pat (x # xs) then rep @ drop (length pat) (x # xs)
      else x # replace_first pat rep xs)"

text \<open>The argument of \<open>JSON.parse\<close>: \<open>line.replace('data: ', '')\<close>\<close>

definition payload :: "jsstring \<Rightarrow> jsstring" where
  "payload line = replace_first (str ''data: '') [] line"

definition is_sentinel :: "jsstring \<Rightarrow> bool" where
  "is_sentinel line \<longleftrightarrow> trim line = str ''data: [DONE]''"

text \<open>
  \<open>s.split('\n')\<close>, for any separating code unit, and the lines of a chunk:
  \<open>chunk.split('\n').filter(line => line.trim() !== '')\<close>
\<close>

function split_char :: "jschar \<Rightarrow> jsstring \<Rightarrow> jsstring list" where
  "split_char c s =
     (case dropWhile (\<lambda>x. x \<noteq> c) s of
        [] \<Rightarrow> [s]
      | _ # rest \<Rightarrow> takeWhile (\<lambda>x. x \<noteq> c) s # split_char c rest)"
  by pat_completeness auto
termination
proof (relation "measure (\<lambda>(c, s). length s)", goal_cases)
  case 1
  show ?case by simp
next
  case (2 c s w rest)
  have "length rest < length (dropWhile (\<lambda>x. x \<noteq> c) s)"
    using 2 by simp
  also have "\<dots> \<le> length s"
    by (rule length_dropWhile_le)
  finally show ?case by simp
qed

declare split_char.simps [simp del]

definition chunk_lines :: "jsstring \<Rightarrow> jsstring list" where
  "chunk_lines chunk = filter (\<lambda>line. trim line \<noteq> []) (split_char 0xA chunk)"

text \<open>
  The body of the \<open>try\<close> block after \<open>JSON.parse\<close>, on the parsed \<open>data\<close>, with the local
  \<open>finished\<close> and the state. \<open>Inl\<close> is a TypeError, with what had been changed when it
  was thrown: reading a property of \<open>null\<close>, or \<open>+=\<close> on a reasoning delta that cannot
  be converted to a string, which skips the content of the same event. \<open>continue\<close> is
  the early \<open>Inr\<close>.
\<close>

definition handle_data :: "json \<Rightarrow> bool \<times> state \<Rightarrow> bool \<times> state + bool \<times> state" where
  "handle_data data fs =
     (case fs of (finished, s) \<Rightarrow>
      case get (Some data) K_choices of Inl _ \<Rightarrow> Inl (finished, s) | Inr choices \<Rightarrow>
      case (if nullish choices then Inr None else get choices K_0) of
        Inl _ \<Rightarrow> Inl (finished, s) | Inr choice \<Rightarrow>
      if \<not> truthy choice then Inr (finished, s) else
      case get choice K_finish_reason of Inl _ \<Rightarrow> Inl (finished, s) | Inr finish_reason \<Rightarrow>
      let finished = (if truthy finish_reason then True else finished) in
      case get choice K_delta of Inl _ \<Rightarrow> Inl (finished, s) | Inr delta \<Rightarrow>
      if \<not> truthy delta then Inr (finished, s) else
      case get delta K_reasoning_content of Inl _ \<Rightarrow> Inl (finished, s) | Inr rc \<Rightarrow>
      case (case rc of
              Some v \<Rightarrow> if \<not> nullish rc
                then (case to_string v of
                        None \<Rightarrow> Inl ()
                      | Some text \<Rightarrow>
                          Inr (s\<lparr>reasoningAccumulatorRef := reasoningAccumulatorRef s @ text\<rparr>))
                else Inr s
            | None \<Rightarrow> Inr s) of
        Inl _ \<Rightarrow> Inl (finished, s) | Inr s \<Rightarrow>
      case get delta K_content of Inl _ \<Rightarrow> Inl (finished, s) | Inr c \<Rightarrow>
      (case c of
         Some v \<Rightarrow> if \<not> nullish c
           then (let s = (if \<not> alreadyCreatedRef s
                          then (createFinalMessage s)\<lparr>alreadyCreatedRef := True\<rparr> else s)
                 in Inr (finished, appendContentToFinalMessage v s))
           else Inr (finished, s)
       | None \<Rightarrow> Inr (finished, s)))"

text \<open>
  One line that is not the sentinel: the \<open>try\<close>/\<open>catch\<close>. The parser is a parameter;
  \<open>None\<close> is its SyntaxError.
\<close>

definition process_line ::
  "(jsstring \<Rightarrow> json option) \<Rightarrow> jsstring \<Rightarrow> bool \<times> state \<Rightarrow> effect list \<times> bool \<times> state" where
  "process_line JSON_parser line fs =
     (case JSON_parser (payload line) of
        None \<Rightarrow> ([JSON_parse (payload line), Console_error (str ''Error parsing chunk:'')], fs)
      | Some data \<Rightarrow>
          (case handle_data data fs of
             Inl fs' \<Rightarrow>
               ([JSON_parse (payload line), Console_error (str ''Error parsing chunk:'')], fs')
           | Inr fs' \<Rightarrow> ([JSON_parse (payload line)], fs')))"

text \<open>The \<open>for\<close> loop over the lines of one chunk; the sentinel line breaks out of it.\<close>

fun process_lines ::
  "(jsstring \<Rightarrow> json option) \<Rightarrow> jsstring list \<Rightarrow> bool \<times> state \<Rightarrow> effect list \<times> bool \<times> state" where
  "process_lines JSON_parser [] fs = ([], fs)"
| "process_lines JSON_parser (line # lines) fs =
     (if is_sentinel line then ([], (True, snd fs))
      else (case process_line JSON_parser line fs of (t1, fs1) \<Rightarrow>
            case process_lines JSON_parser lines fs1 of (t2, fs2) \<Rightarrow> (t1 @ t2, fs2)))"

text \<open>
  The \<open>while (true)\<close> loop over the reads; the list holds what \<open>reader.read()\<close> delivers
  before \<open>done\<close>. \<open>Inl\<close> is a rejected read, with the state at that moment.
\<close>

fun read_loop ::
  "(jsstring \<Rightarrow> json option) \<Rightarrow> read_result list \<Rightarrow> bool \<times> state \<Rightarrow>
   effect list \<times> (thrown \<times> state + bool \<times> state)" where
  "read_loop JSON_parser [] fs = ([], Inr fs)"
| "read_loop JSON_parser (Read_throws e # reads) fs = ([], Inl (e, snd fs))"
| "read_loop JSON_parser (Chunk chunk # reads) fs =
     (case process_lines JSON_parser (chunk_lines chunk) fs of (t1, fs1) \<Rightarrow>
      if fst fs1 then (t1, Inr fs1)
      else (case read_loop JSON_parser reads fs1 of (t2, r) \<Rightarrow> (t1 @ t2, r)))"

definition start_turn :: "jsstring \<Rightarrow> state \<Rightarrow> state" where
  "start_turn prompt s =
     s\<lparr>messages := messages s @ [user_message prompt], isLoading := True,
       answerMessageIndexRef := - 1, alreadyCreatedRef := False,
       reasoningAccumulatorRef := []\<rparr>"

text \<open>The \<open>try\<close> block of \<open>handleSend\<close>.\<close>

definition send_try ::
  "(jsstring \<Rightarrow> json option) \<Rightarrow> fetch_result \<Rightarrow> state \<Rightarrow> effect list \<times> (thrown \<times> state + state)" where
  "send_try JSON_parser response s =
     (case response of
        Fetch_rejected e \<Rightarrow> ([], Inl (e, s))
      | Fetch_resolved status body \<Rightarrow>
          if \<not> response_ok status
          then ([], Inl (Error (str ''HTTP error! status: '' @ dec status), s))
          else (case (case body of None \<Rightarrow> ([], Inr (False, s))
                      | Some reads \<Rightarrow> read_loop JSON_parser reads (False, s)) of
                  (t, Inl es) \<Rightarrow> (t, Inl es)
                | (t, Inr fs) \<Rightarrow> (t, Inr (finalizeMessage (snd fs)))))"

definition handleSend ::
  "(jsstring \<Rightarrow> json option) \<Rightarrow> jsstring \<Rightarrow> fetch_result \<Rightarrow> state \<Rightarrow> effect list \<times> state" where
  "handleSend JSON_parser prompt response s =
     (case send_try JSON_parser response (start_turn prompt s) of
        (t, Inl (error, s')) \<Rightarrow>
          (Console_log (str ''[handleSend] => START with prompt='') # t
             @ [Console_error (str ''[handleSend] => error:'')],
           s'\<lparr>messages := messages s' @ [error_message error], isLoading := False\<rparr>)
      | (t, Inr s') \<Rightarrow>
          (Console_log (str ''[handleSend] => START with prompt='') # t,
           s'\<lparr>isLoading := False\<rparr>))"

section \<open>The second version of the component\<close>

text \<open>
  The second \<open>ChatWindow\<close> keeps the partial reasoning and the partial answer in two more
  \<open>useState\<close> cells. \<open>handleSend\<close> reads \<open>currentReasoning\<close> and \<open>currentResponse\<close> as
  they were when the component last rendered (its closure); it writes them through their
  setters. Its locals are \<open>reasoningComplete\<close> and \<open>reasoningMessageIndex\<close>.
\<close>

record state2 = ui +
  currentReasoning :: jsstring
  currentResponse :: jsstring

text \<open>
  The body of the \<open>try\<close> block after \<open>JSON.parse\<close>; \<open>closure_currentReasoning\<close> is the
  value \<open>handleSend\<close> captured. Both concatenations are inside updaters here: one that
  throws changes nothing and fails the rendering.
\<close>

definition handle_data_v2 ::
  "jsstring \<Rightarrow> json \<Rightarrow> (bool \<times> int) \<times> state2 \<Rightarrow> (bool \<times> int) \<times> state2 + (bool \<times> int) \<times> state2" where
  "handle_data_v2 closure_currentReasoning data ls =
     (case ls of ((reasoningComplete, reasoningMessageIndex), s) \<Rightarrow>
      case get (Some data) K_choices of Inl _ \<Rightarrow> Inl ls | Inr choices \<Rightarrow>
      case (if nullish choices then Inr None else get choices K_0) of
        Inl _ \<Rightarrow> Inl ls | Inr choice \<Rightarrow>
      case (if nullish choice then Inr None else get choice K_delta) of
        Inl _ \<Rightarrow> Inl ls | Inr delta \<Rightarrow>
      case (if nullish delta then Inr None else get delta K_reasoning_content) of
        Inl _ \<Rightarrow> Inl ls | Inr rc \<Rightarrow>
      let s = (case rc of
                 Some v \<Rightarrow> if \<not> nullish rc
                   then (case to_string v of
                           None \<Rightarrow> s\<lparr>renderFailed := True\<rparr>
                         | Some text \<Rightarrow> s\<lparr>currentReasoning := currentReasoning s @ text\<rparr>)
                   else s
               | None \<Rightarrow> s) in
      case (if nullish delta then Inr None else get delta K_content) of
        Inl _ \<Rightarrow> Inl ((reasoningComplete, reasoningMessageIndex), s) | Inr c \<Rightarrow>
      (case c of
         Some v \<Rightarrow> if \<not> nullish c
           then (case (if \<not> reasoningComplete
                       then (let newMessages = messages s @
                                   [\<lparr>content = [], isUser = False,
                                     reasoning = Some closure_currentReasoning,
                                     isComplete = Some False, showReasoning = Some True\<rparr>]
                             in ((True, int (length newMessages) - 1),
                                 s\<lparr>messages := newMessages, currentReasoning := []\<rparr>))
                       else ((reasoningComplete, reasoningMessageIndex), s)) of
                   (locals, s) \<Rightarrow>
                     Inr (locals,
                          case to_string v of
                            None \<Rightarrow> s\<lparr>renderFailed := True\<rparr>
                          | Some text \<Rightarrow> s\<lparr>currentResponse := currentResponse s @ text\<rparr>))
           else Inr ((reasoningComplete, reasoningMessageIndex), s)
       | None \<Rightarrow> Inr ((reasoningComplete, reasoningMessageIndex), s)))"

definition process_line_v2 ::
  "(jsstring \<Rightarrow> json option) \<Rightarrow> jsstring \<Rightarrow> jsstring \<Rightarrow> (bool \<times> int) \<times> state2 \<Rightarrow>
   effect list \<times> (bool \<times> int) \<times> state2" where
  "process_line_v2 JSON_parser closure_currentReasoning line ls =
     (case JSON_parser (payload line) of
        None \<Rightarrow> ([JSON_parse (payload line), Console_error (str ''Error parsing stream:'')], ls)
      | Some data \<Rightarrow>
          (case handle_data_v2 closure_currentReasoning data ls of
             Inl ls' \<Rightarrow>
               ([JSON_parse (payload line), Console_error (str ''Error parsing stream:'')], ls')
           | Inr ls' \<Rightarrow> ([JSON_parse (payload line)], ls')))"

text \<open>The \<open>for\<close> loop over the lines of one chunk; the sentinel line is passed over.\<close>

fun process_lines_v2 ::
  "(jsstring \<Rightarrow> json option) \<Rightarrow> jsstring \<Rightarrow> jsstring list \<Rightarrow> (bool \<times> int) \<times> state2 \<Rightarrow>
   effect list \<times> (bool \<times> int) \<times> state2" where
  "process_lines_v2 JSON_parser cr [] ls = ([], ls)"
| "process_lines_v2 JSON_parser cr (line # lines) ls =
     (if is_sentinel line then process_lines_v2 JSON_parser cr lines ls
      else (case process_line_v2 JSON_parser cr line ls of (t1, ls1) \<Rightarrow>
            case process_lines_v2 JSON_parser cr lines ls1 of (t2, ls2) \<Rightarrow> (t1 @ t2, ls2)))"

text \<open>The \<open>while (true)\<close> loop: it ends when the reader reports \<open>done\<close> or a read rejects.\<close>

fun read_loop_v2 ::
  "(jsstring \<Rightarrow> json option) \<Rightarrow> jsstring \<Rightarrow> read_result list \<Rightarrow> (bool \<times> int) \<times> state2 \<Rightarrow>
   effect list \<times> (thrown \<times> state2 + (bool \<times> int) \<times> state2)" where
  "read_loop_v2 JSON_parser cr [] ls = ([], Inr ls)"
| "read_loop_v2 JSON_parser cr (Read_throws e # reads) ls = ([], Inl (e, snd ls))"
| "read_loop_v2 JSON_parser cr (Chunk chunk # reads) ls =
     (case process_lines_v2 JSON_parser cr (chunk_lines chunk) ls of (t1, ls1) \<Rightarrow>
      case read_loop_v2 JSON_parser cr reads ls1 of (t2, r) \<Rightarrow> (t1 @ t2, r))"

text \<open>
  The update at the end of the stream, followed by \<open>setCurrentResponse('')\<close>. \<open>a || b\<close>
  on strings is \<open>a\<close> unless \<open>a\<close> is empty. \<open>reasoningMessageIndex\<close> is \<open>-1\<close> or the
  position of the message pushed by \<open>handle_data_v2\<close>, so the index is in range whenever
  it is not \<open>-1\<close>; the list is left alone otherwise.
\<close>

definition final_update_v2 :: "jsstring \<Rightarrow> jsstring \<Rightarrow> int \<Rightarrow> state2 \<Rightarrow> state2" where
  "final_update_v2 closure_currentReasoning closure_currentResponse reasoningMessageIndex s =
     (let updatedMessages = messages s;
          updatedMessages =
            (if reasoningMessageIndex \<noteq> - 1 then
               (if 0 \<le> reasoningMessageIndex \<and> nat reasoningMessageIndex < length updatedMessages
                then (let m = updatedMessages ! nat reasoningMessageIndex in
                      updatedMessages[nat reasoningMessageIndex :=
                        m\<lparr>content := (if closure_currentResponse \<noteq> []
                                       then closure_currentResponse else content m),
                          isComplete := Some True,
                          showReasoning := Some True,
                          reasoning := (if closure_currentReasoning \<noteq> []
                                        then Some closure_currentReasoning else reasoning m)\<rparr>])
                else updatedMessages)
             else updatedMessages @
                    [\<lparr>content = closure_currentResponse, isUser = False, reasoning = None,
                      isComplete = Some True, showReasoning = Some False\<rparr>])
      in s\<lparr>messages := updatedMessages, currentResponse := []\<rparr>)"

definition start_turn_v2 :: "jsstring \<Rightarrow> state2 \<Rightarrow> state2" where
  "start_turn_v2 message s =
     s\<lparr>messages := messages s @ [user_message message], isLoading := True,
       currentReasoning := [], currentResponse := []\<rparr>"

definition send_try_v2 ::
  "(jsstring \<Rightarrow> json option) \<Rightarrow> jsstring \<Rightarrow> jsstring \<Rightarrow> fetch_result \<Rightarrow> state2 \<Rightarrow>
   effect list \<times> (thrown \<times> state2 + state2)" where
  "send_try_v2 JSON_parser cr cp response s =
     (case response of
        Fetch_rejected e \<Rightarrow> ([], Inl (e, s))
      | Fetch_resolved status body \<Rightarrow>
          if \<not> response_ok status
          then ([], Inl (Error (str ''HTTP error! status: '' @ dec status), s))
          else (case (case body of None \<Rightarrow> ([], Inr ((False, - 1), s))
                      | Some reads \<Rightarrow> read_loop_v2 JSON_parser cr reads ((False, - 1), s)) of
                  (t, Inl es) \<Rightarrow> (t, Inl es)
                | (t, Inr ls) \<Rightarrow> (t, Inr (final_update_v2 cr cp (snd (fst ls)) (snd ls)))))"

definition handleSend_v2 ::
  "(jsstring \<Rightarrow> json option) \<Rightarrow> jsstring \<Rightarrow> fetch_result \<Rightarrow> state2 \<Rightarrow> effect list \<times> state2" where
  "handleSend_v2 JSON_parser message response s =
     (case send_try_v2 JSON_parser (currentReasoning s) (currentResponse s) response
             (start_turn_v2 message s) of
        (t, Inl (error, s')) \<Rightarrow>
          (t @ [Console_error (str ''API Error:'')],
           s'\<lparr>messages := messages s' @ [error_message error], isLoading := False\<rparr>)
      | (t, Inr s') \<Rightarrow> (t, s'\<lparr>isLoading := False\<rparr>))"

section \<open>Notions used to state the properties\<close>

text \<open>No two adjacent code units of \<open>s\<close> are both \<open>c\<close>.\<close>

definition no_run :: "jschar \<Rightarrow> jsstring \<Rightarrow> bool" where
  "no_run c s = successively (\<lambda>a b. \<not> (a = c \<and> b = c)) s"

text \<open>The test of the fusion loop: one token ends with the other.\<close>

definition related :: "jsstring \<Rightarrow> jsstring \<Rightarrow> bool" where
  "related a b \<longleftrightarrow> suffix a b \<or> suffix b a"

text \<open>A token: not empty, no white space.\<close>

definition is_token :: "jsstring \<Rightarrow> bool" where
  "is_token t \<longleftrightarrow> t \<noteq> [] \<and> list_all (\<lambda>c. \<not> isWhiteSpace c) t"

text \<open>The array \<open>cleanReasoningChain\<close> joins at its end.\<close>

definition fusedTokens :: "jsstring \<Rightarrow> jsstring list" where
  "fusedTokens text =
     foldl fuse_step [] (foldl dedup_step []
       (filter (\<lambda>t. trim t \<noteq> []) (split_ws (replace_runs 0x3F (replace_runs 0x2E text)))))"

text \<open>
  The wire format of an event, \<open>{choices:[{delta:{reasoning_content, content},
  finish_reason}]}\<close>: the first choice of a payload, and the three fields of an event
  whose first choice and its delta are objects.
\<close>

definition choice0 :: "json \<Rightarrow> (jsstring \<times> json) list option" where
  "choice0 data =
     (case data of
        JObj kvs \<Rightarrow>
          (case map_of kvs (str ''choices'') of
             Some (JArr (JObj ch # _)) \<Rightarrow> Some ch
           | _ \<Rightarrow> None)
      | _ \<Rightarrow> None)"

definition event_fields :: "json \<Rightarrow> (json option \<times> json option \<times> json option) option" where
  "event_fields data =
     (case choice0 data of
        Some ch \<Rightarrow>
          (case map_of ch (str ''delta'') of
             Some (JObj dl) \<Rightarrow>
               Some (map_of ch (str ''finish_reason''),
                     map_of dl (str ''reasoning_content''),
                     map_of dl (str ''content''))
           | _ \<Rightarrow> None)
      | None \<Rightarrow> None)"

text \<open>
  A reasoning-only delta carries a string in \<open>reasoning_content\<close>, no content and no
  finish reason; a content delta carries a string in \<open>content\<close>, no reasoning and no finish
  reason; a finish event carries a non-empty finish reason and neither delta.
\<close>

definition reasoning_delta :: "json \<Rightarrow> jsstring \<Rightarrow> bool" where
  "reasoning_delta data r \<longleftrightarrow>
     (case event_fields data of
        Some (fr, rc, c) \<Rightarrow> nullish fr \<and> rc = Some (JStr r) \<and> nullish c
      | None \<Rightarrow> False)"

definition content_delta :: "json \<Rightarrow> jsstring \<Rightarrow> bool" where
  "content_delta data c \<longleftrightarrow>
     (case event_fields data of
        Some (fr, rc, c') \<Rightarrow> nullish fr \<and> nullish rc \<and> c' = Some (JStr c)
      | None \<Rightarrow> False)"

definition finish_event :: "json \<Rightarrow> bool" where
  "finish_event data \<longleftrightarrow>
     (case choice0 data of
        Some ch \<Rightarrow>
          (case map_of ch (str ''finish_reason'') of
             Some (JStr f) \<Rightarrow>
               f \<noteq> [] \<and>
               (case map_of ch (str ''delta'') of
                  None \<Rightarrow> True
                | Some JNull \<Rightarrow> True
                | Some (JObj dl) \<Rightarrow>
                    nullish (map_of dl (str ''reasoning_content'')) \<and>
                    nullish (map_of dl (str ''content''))
                | Some _ \<Rightarrow> False)
           | _ \<Rightarrow> False)
      | None \<Rightarrow> False)"

text \<open>Lines of the stream that the parser turns into such events.\<close>

definition reasoning_line :: "(jsstring \<Rightarrow> json option) \<Rightarrow> jsstring \<Rightarrow> jsstring \<Rightarrow> bool" where
  "reasoning_line JSON_parser line r \<longleftrightarrow>
     \<not> is_sentinel line \<and>
     (case JSON_parser (payload line) of Some data \<Rightarrow> reasoning_delta data r | None \<Rightarrow> False)"

definition content_line :: "(jsstring \<Rightarrow> json option) \<Rightarrow> jsstring \<Rightarrow> jsstring \<Rightarrow> bool" where
  "content_line JSON_parser line c \<longleftrightarrow>
     \<not> is_sentinel line \<and>
     (case JSON_parser (payload line) of Some data \<Rightarrow> content_delta data c | None \<Rightarrow> False)"

definition finish_line :: "(jsstring \<Rightarrow> json option) \<Rightarrow> jsstring \<Rightarrow> bool" where
  "finish_line JSON_parser line \<longleftrightarrow>
     \<not> is_sentinel line \<and>
     (case JSON_parser (payload line) of Some data \<Rightarrow> finish_event data | None \<Rightarrow> False)"

text \<open>
  What \<open>handle_data\<close> reads from a parsed payload: nothing when reading \<open>choices\<close>
  throws (\<open>None\<close>); otherwise whether the event sets \<open>finished\<close>, and the reasoning
  delta and the content delta it finds, when they are there and not \<open>null\<close>.
\<close>

definition read_event :: "json \<Rightarrow> (bool \<times> json option \<times> json option) option" where
  "read_event data =
     (case get (Some data) K_choices of Inl _ \<Rightarrow> None | Inr choices \<Rightarrow>
      case (if nullish choices then Inr None else get choices K_0) of
        Inl _ \<Rightarrow> None | Inr choice \<Rightarrow>
      if \<not> truthy choice then Some (False, None, None) else
      case get choice K_finish_reason of Inl _ \<Rightarrow> None | Inr finish_reason \<Rightarrow>
      case get choice K_delta of Inl _ \<Rightarrow> None | Inr delta \<Rightarrow>
      if \<not> truthy delta then Some (truthy finish_reason, None, None) else
      case get delta K_reasoning_content of Inl _ \<Rightarrow> None | Inr rc \<Rightarrow>
      case get delta K_content of Inl _ \<Rightarrow> None | Inr c \<Rightarrow>
        Some (truthy finish_reason,
              (if nullish rc then None else rc), (if nullish c then None else c)))"

text \<open>
  The events whose deltas are strings, as the stream's wire format has them, and what
  such an event does to a turn of the first version: whether it sets \<open>finished\<close>, the
  text it adds to the reasoning and the text it adds to the answer.
\<close>

fun is_text :: "json option \<Rightarrow> bool" where
  "is_text None = True"
| "is_text (Some (JStr s)) = True"
| "is_text (Some _) = False"

definition string_deltas :: "json \<Rightarrow> bool" where
  "string_deltas data \<longleftrightarrow>
     (case read_event data of None \<Rightarrow> True | Some (f, r, c) \<Rightarrow> is_text r \<and> is_text c)"

definition classify :: "json \<Rightarrow> (bool \<times> jsstring option \<times> jsstring option) option" where
  "classify data =
     (case read_event data of None \<Rightarrow> None
      | Some (f, r, c) \<Rightarrow> Some (f, Option.bind r to_string, Option.bind c to_string))"

definition add_reasoning :: "jsstring option \<Rightarrow> state \<Rightarrow> state" where
  "add_reasoning r s =
     (case r of None \<Rightarrow> s
      | Some text \<Rightarrow> s\<lparr>reasoningAccumulatorRef := reasoningAccumulatorRef s @ text\<rparr>)"

definition add_content :: "jsstring option \<Rightarrow> state \<Rightarrow> state" where
  "add_content c s =
     (case c of None \<Rightarrow> s
      | Some text \<Rightarrow>
          appendContentToFinalMessage (JStr text)
            (if alreadyCreatedRef s then s
             else (createFinalMessage s)\<lparr>alreadyCreatedRef := True\<rparr>))"

text \<open>The answer message while it is being streamed, with the content it has so far.\<close>

definition open_answer :: "jsstring \<Rightarrow> message" where
  "open_answer c =
     \<lparr>content = c, isUser = False, reasoning = Some [], isComplete = Some False,
      showReasoning = Some True\<rparr>"

text \<open>
  The lines the parser rejects or turns into an event with string deltas; the text such
  a line adds to the answer, if any, and the answer texts of a sequence of lines.
\<close>

definition string_line :: "(jsstring \<Rightarrow> json option) \<Rightarrow> jsstring \<Rightarrow> bool" where
  "string_line p l \<longleftrightarrow>
     (case p (payload l) of None \<Rightarrow> True | Some d \<Rightarrow> string_deltas d)"

definition line_content :: "(jsstring \<Rightarrow> json option) \<Rightarrow> jsstring \<Rightarrow> jsstring option" where
  "line_content p l =
     (case p (payload l) of None \<Rightarrow> None
      | Some d \<Rightarrow> (case classify d of None \<Rightarrow> None | Some (f, r, c) \<Rightarrow> c))"

fun content_deltas :: "(jsstring \<Rightarrow> json option) \<Rightarrow> jsstring list \<Rightarrow> jsstring list" where
  "content_deltas p [] = []"
| "content_deltas p (l # ls) =
     (case line_content p l of None \<Rightarrow> content_deltas p ls
      | Some c \<Rightarrow> c # content_deltas p ls)"

text \<open>The open answer messages of a conversation list: not the user's, not complete.\<close>

definition open_answers :: "message list \<Rightarrow> message list" where
  "open_answers ms = filter (\<lambda>m. \<not> isUser m \<and> isComplete m = Some False) ms"

text \<open>
  The local \<open>reasoningMessageIndex\<close> of the second version is \<open>-1\<close> or the position of
  a message of the list.
\<close>

definition index_ok :: "(bool \<times> int) \<times> state2 \<Rightarrow> bool" where
  "index_ok st \<longleftrightarrow>
     snd (fst st) = - 1 \<or> (0 \<le> snd (fst st) \<and> nat (snd (fst st)) < length (messages (snd st)))"


text \<open>
  Lines that do not end the loop over a chunk: not the sentinel, and rejected by the
  parser or an event with string deltas that does not set \<open>finished\<close>.
\<close>

definition quiet_line :: "(jsstring \<Rightarrow> json option) \<Rightarrow> jsstring \<Rightarrow> bool" where
  "quiet_line p l \<longleftrightarrow>
     \<not> is_sentinel l \<and>
     (case p (payload l) of None \<Rightarrow> True
      | Some d \<Rightarrow>
          string_deltas d \<and>
          (case classify d of None \<Rightarrow> True | Some (f, r, c) \<Rightarrow> \<not> f))"

text \<open>The arguments of the parser calls among the effects, in order.\<close>

fun parse_calls :: "effect list \<Rightarrow> jsstring list" where
  "parse_calls [] = []"
| "parse_calls (JSON_parse a # t) = a # parse_calls t"
| "parse_calls (_ # t) = parse_calls t"

section \<open>A sample stream\<close>

text \<open>
  The state of a freshly mounted component, and a few payloads with the values a JSON
  parser gives them; \<open>sample_parser\<close> rejects every other text.
\<close>

definition initial_state :: state where
  "initial_state =
     \<lparr>messages = [], isLoading = False, renderFailed = False,
      answerMessageIndexRef = - 1,
      alreadyCreatedRef = False, reasoningAccumulatorRef = []\<rparr>"

definition initial_state_v2 :: state2 where
  "initial_state_v2 =
     \<lparr>messages = [], isLoading = False, renderFailed = False, currentReasoning = [],
      currentResponse = []\<rparr>"

definition json_r1 :: jsstring where
  \<open>json_r1 = str ''{"choices":[{"delta":{"reasoning_content":"So... "}}]}''\<close>

definition json_r2 :: jsstring where
  \<open>json_r2 = str ''{"choices":[{"delta":{"reasoning_content":"so what??"}}]}''\<close>

definition json_c1 :: jsstring where
  \<open>json_c1 = str ''{"choices":[{"delta":{"content":"Hi"}}]}''\<close>

definition json_c2 :: jsstring where
  \<open>json_c2 = str ''{"choices":[{"delta":{"content":" there"}}]}''\<close>

definition json_fin :: jsstring where
  \<open>json_fin = str ''{"choices":[{"delta":{},"finish_reason":"stop"}]}''\<close>

definition json_bad :: jsstring where
  \<open>json_bad = str ''{"choices":''\<close>

definition json_odd :: jsstring where
  \<open>json_odd = str ''{"choices":[{"delta":{"reasoning_content":{"toString":1},"content":"X"}}]}''\<close>

definition delta_event :: "(jsstring \<times> json) list \<Rightarrow> json" where
  "delta_event kvs = JObj [(str ''choices'', JArr [JObj [(str ''delta'', JObj kvs)]])]"

definition sample_parser :: "jsstring \<Rightarrow> json option" where
  "sample_parser =
     map_of
       [(json_r1, delta_event [(str ''reasoning_content'', JStr (str ''So... ''))]),
        (json_r2, delta_event [(str ''reasoning_content'', JStr (str ''so what??''))]),
        (json_c1, delta_event [(str ''content'', JStr (str ''Hi''))]),
        (json_c2, delta_event [(str ''content'', JStr (str '' there''))]),
        (json_odd,
         delta_event [(str ''reasoning_content'', JObj [(str ''toString'', JNum (str ''1''))]),
                      (str ''content'', JStr (str ''X''))]),
        (json_fin,
         JObj [(str ''choices'',
                JArr [JObj [(str ''delta'', JObj []),
                            (str ''finish_reason'', JStr (str ''stop''))]])])]"

text \<open>An event line, \<open>data: \<close> before the payload, and the sentinel line.\<close>

definition data_line :: "jsstring \<Rightarrow> jsstring" where
  "data_line text = str ''data: '' @ text"

definition done_line :: jsstring where
  "done_line = str ''data: [DONE]''"

text \<open>The text of a chunk holding the given lines, each followed by an empty line.\<close>

definition chunk_of :: "jsstring list \<Rightarrow> jsstring" where
  "chunk_of lines = concat (map (\<lambda>l. l @ [0xA, 0xA]) lines)"

definition sample_chunks :: "jsstring list" where
  "sample_chunks =
     [chunk_of [data_line json_r1, data_line json_r2],
      chunk_of [data_line json_c1],
      chunk_of [data_line json_c2, data_line json_fin],
      chunk_of [done_line]]"

section \<open>Properties of cleanReasoningChain\<close>

subsection \<open>Collapsing runs and splitting\<close>

lemma is_token_iff: "is_token t \<longleftrightarrow> t \<noteq> [] \<and> (\<forall>c\<in>set t. \<not> isWhiteSpace c)"
  by (simp add: is_token_def list_all_iff)

lemma no_run_ConsD: "no_run d (x # s) \<Longrightarrow> no_run d s"
  by (cases s) (auto simp: no_run_def)

lemma split_ws_last:
  assumes "dropWhile (\<lambda>c. \<not> isWhiteSpace c) s = []"
  shows "split_ws s = [s]"
  by (subst split_ws.simps, subst assms) simp

lemma split_ws_next:
  assumes "dropWhile (\<lambda>c. \<not> isWhiteSpace c) s = w # rest"
  shows "split_ws s =
    takeWhile (\<lambda>c. \<not> isWhiteSpace c) s # split_ws (dropWhile isWhiteSpace rest)"
  by (subst split_ws.simps, subst assms) simp

lemma replace_runs_Nil_iff: "replace_runs c s = [] \<longleftrightarrow> s = []"
  by (induction c s rule: replace_runs.induct) auto

lemma hd_replace_runs: "s \<noteq> [] \<Longrightarrow> hd (replace_runs c s) = hd s"
  by (induction c s rule: replace_runs.induct) auto

lemma no_run_dropWhile: "no_run d s \<Longrightarrow> no_run d (dropWhile P s)"
proof -
  assume "no_run d s"
  then have "no_run d (takeWhile P s @ dropWhile P s)" by simp
  then show ?thesis unfolding no_run_def successively_append_iff by blast
qed

lemma no_run_replace_runs: "no_run c (replace_runs c s)"
proof (induction c s rule: replace_runs.induct)
  case (3 c x y ys)
  show ?case
  proof (cases "x = c \<and> y = c")
    case True
    let ?r = "dropWhile (\<lambda>z. z = c) ys"
    have ih: "no_run c (replace_runs c ?r)" using 3(1) True by simp
    have "?r \<noteq> [] \<Longrightarrow> hd ?r \<noteq> c" using hd_dropWhile [of "\<lambda>z. z = c" ys] by simp
    then have "replace_runs c ?r \<noteq> [] \<Longrightarrow> hd (replace_runs c ?r) \<noteq> c"
      by (simp add: replace_runs_Nil_iff hd_replace_runs)
    with ih True show ?thesis
      by (auto simp: no_run_def successively_Cons)
  next
    case False
    then have ih: "no_run c (replace_runs c (y # ys))" using 3(2) by simp
    have "hd (replace_runs c (y # ys)) = y" by (simp add: hd_replace_runs)
    with ih False show ?thesis
      by (auto simp: no_run_def successively_Cons)
  qed
qed (simp_all add: no_run_def)

lemma replace_runs_id: "no_run c s \<Longrightarrow> replace_runs c s = s"
  by (induction c s rule: replace_runs.induct) (auto simp: no_run_def)

lemma no_run_replace_runs_other: "no_run d s \<Longrightarrow> no_run d (replace_runs c s)"
proof (induction c s rule: replace_runs.induct)
  case (3 c x y ys)
  show ?case
  proof (cases "x = c \<and> y = c")
    case True
    let ?r = "dropWhile (\<lambda>z. z = c) ys"
    from True 3(3) have dc: "d \<noteq> c" by (auto simp: no_run_def)
    from 3(3) have "no_run d ys" by (blast dest: no_run_ConsD)
    then have "no_run d ?r" by (rule no_run_dropWhile)
    then have ih: "no_run d (replace_runs c ?r)" using 3(1) True by simp
    with True dc show ?thesis
      by (auto simp: no_run_def successively_Cons)
  next
    case False
    from 3(3) have "no_run d (y # ys)" by (simp add: no_run_def)
    then have ih: "no_run d (replace_runs c (y # ys))" using 3(2) False by simp
    have "hd (replace_runs c (y # ys)) = y" by (simp add: hd_replace_runs)
    with ih False 3(3) show ?thesis
      by (auto simp: no_run_def successively_Cons)
  qed
qed (simp_all add: no_run_def)

lemma no_run_sublist: "no_run c s \<Longrightarrow> sublist t s \<Longrightarrow> no_run c t"
  unfolding sublist_def no_run_def by (auto simp: successively_append_iff)

lemma split_ws_tokens:
  "t \<in> set (split_ws s) \<Longrightarrow> sublist t s \<and> (\<forall>c\<in>set t. \<not> isWhiteSpace c)"
proof (induction s arbitrary: t rule: split_ws.induct)
  case (1 s)
  let ?d = "dropWhile (\<lambda>c. \<not> isWhiteSpace c) s"
  let ?k = "takeWhile (\<lambda>c. \<not> isWhiteSpace c) s"
  show ?case
  proof (cases ?d)
    case Nil
    then have "t = s" using 1(2) by (simp add: split_ws_last)
    moreover from Nil have "\<forall>c\<in>set s. \<not> isWhiteSpace c" by (simp add: dropWhile_eq_Nil_conv)
    ultimately show ?thesis by simp
  next
    case (Cons w rest)
    then have tt: "t = ?k \<or> t \<in> set (split_ws (dropWhile isWhiteSpace rest))"
      using 1(2) by (simp add: split_ws_next)
    have s: "s = ?k @ w # rest" using Cons takeWhile_dropWhile_id [of "\<lambda>c. \<not> isWhiteSpace c" s] by simp
    from tt show ?thesis
    proof
      assume "t = ?k"
      moreover have "sublist ?k s" by (subst (2) s) (rule sublist_append_rightI)
      moreover have "\<forall>c\<in>set ?k. \<not> isWhiteSpace c" using set_takeWhileD by fastforce
      ultimately show ?thesis by simp
    next
      assume a: "t \<in> set (split_ws (dropWhile isWhiteSpace rest))"
      from 1(1) [OF Cons a] have st: "sublist t (dropWhile isWhiteSpace rest)"
        and nw: "\<forall>c\<in>set t. \<not> isWhiteSpace c" by simp_all
      have "suffix (dropWhile isWhiteSpace rest) rest" by (rule suffix_dropWhile)
      then have "suffix (dropWhile isWhiteSpace rest) s"
        by (subst s) (intro suffix_appendI suffix_ConsI)
      then have "sublist (dropWhile isWhiteSpace rest) s" by (rule suffix_imp_sublist)
      with st have "sublist t s" by (rule sublist_order.order_trans)
      with nw show ?thesis by simp
    qed
  qed
qed


subsection \<open>The two loops over the tokens\<close>

lemma dedup_step_subset: "set (dedup_step acc t) \<subseteq> insert t (set acc)"
  by (auto simp: dedup_step_def)

lemma fuse_step_subset: "set (fuse_step acc t) \<subseteq> insert t (set acc)"
  by (auto simp: fuse_step_def Let_def dest: in_set_butlastD)

lemma foldl_dedup_subset: "set (foldl dedup_step acc ts) \<subseteq> set acc \<union> set ts"
proof (induction ts arbitrary: acc)
  case (Cons t ts)
  show ?case using Cons [of "dedup_step acc t"] dedup_step_subset [of acc t] by auto
qed simp

lemma foldl_fuse_subset: "set (foldl fuse_step acc ts) \<subseteq> set acc \<union> set ts"
proof (induction ts arbitrary: acc)
  case (Cons t ts)
  show ?case using Cons [of "fuse_step acc t"] fuse_step_subset [of acc t] by auto
qed simp

lemma related_replace:
  assumes "\<not> related p l" and "suffix l t"
  shows "\<not> related p t"
proof
  assume "related p t"
  then consider "suffix p t" | "suffix t p" by (auto simp: related_def)
  then show False
  proof cases
    case 1
    with assms(2) have "suffix p l \<or> suffix l p" by (blast dest: suffix_same_cases)
    with assms(1) show False by (simp add: related_def)
  next
    case 2
    with assms(2) have "suffix l p" by (blast intro: suffix_order.trans)
    with assms(1) show False by (simp add: related_def)
  qed
qed

lemma fuse_step_unrelated:
  assumes "successively (\<lambda>a b. \<not> related a b) acc"
  shows "successively (\<lambda>a b. \<not> related a b) (fuse_step acc t)"
proof (cases "acc = []")
  case True
  then show ?thesis by (simp add: fuse_step_def)
next
  case False
  then obtain ini l where acc: "acc = ini @ [l]" by (metis append_butlast_last_id)
  show ?thesis
  proof (cases "related t l")
    case rel: True
    show ?thesis
    proof (cases "length t > length l")
      case True
      with rel have lt: "suffix l t" by (auto simp: related_def dest: suffix_length_le)
      have "ini \<noteq> [] \<Longrightarrow> \<not> related (last ini) t"
        using assms acc related_replace [OF _ lt, of "last ini"]
        by (auto simp: successively_append_iff)
      with assms acc rel True show ?thesis
        by (auto simp: fuse_step_def related_def successively_append_iff)
    next
      case False
      with assms acc rel show ?thesis by (auto simp: fuse_step_def related_def)
    qed
  next
    case False
    then have "\<not> related l t" by (auto simp: related_def)
    with False assms acc show ?thesis
      by (auto simp: fuse_step_def related_def successively_append_iff)
  qed
qed

lemma foldl_fuse_unrelated:
  "successively (\<lambda>a b. \<not> related a b) acc \<Longrightarrow>
   successively (\<lambda>a b. \<not> related a b) (foldl fuse_step acc ts)"
  by (induction ts arbitrary: acc) (simp_all add: fuse_step_unrelated)

lemma foldl_dedup_id:
  "distinct_adj (acc @ ts) \<Longrightarrow> foldl dedup_step acc ts = acc @ ts"
proof (induction ts arbitrary: acc)
  case (Cons t ts)
  from Cons.prems have "acc = [] \<or> last acc \<noteq> t"
    by (auto simp: distinct_adj_append_iff)
  then have "dedup_step acc t = acc @ [t]" by (auto simp: dedup_step_def)
  with Cons.IH [of "acc @ [t]"] Cons.prems show ?case by simp
qed simp

lemma foldl_fuse_id:
  "successively (\<lambda>a b. \<not> related a b) (acc @ ts) \<Longrightarrow> foldl fuse_step acc ts = acc @ ts"
proof (induction ts arbitrary: acc)
  case (Cons t ts)
  from Cons.prems have "acc = [] \<or> \<not> related (last acc) t"
    by (auto simp: successively_append_iff)
  then have "fuse_step acc t = acc @ [t]" by (auto simp: fuse_step_def related_def)
  with Cons.IH [of "acc @ [t]"] Cons.prems show ?case by simp
qed simp

lemma unrelated_distinct_adj:
  "successively (\<lambda>a b. \<not> related a b) ts \<Longrightarrow> distinct_adj ts"
  unfolding distinct_adj_def
  by (erule successively_mono) (auto simp: related_def)


subsection \<open>Joining and splitting again\<close>

lemma isWhiteSpace_space [simp]: "isWhiteSpace 0x20"
  by (simp add: isWhiteSpace_def)

lemma str_space [simp]: "str '' '' = [0x20]"
  by (simp add: str_def)

lemma join_Cons: "join sep (x # xs) = (if xs = [] then x else x @ sep @ join sep xs)"
  by (cases xs) simp_all

lemma join_Nil_iff: "\<forall>t\<in>set ts. is_token t \<Longrightarrow> join [0x20] ts = [] \<longleftrightarrow> ts = []"
  by (cases ts) (auto simp: join_Cons is_token_iff)

lemma hd_join: "is_token t \<Longrightarrow> hd (join [0x20] (t # ts)) = hd t"
  by (auto simp: join_Cons is_token_iff)

lemma last_join:
  "ts \<noteq> [] \<Longrightarrow> \<forall>t\<in>set ts. is_token t \<Longrightarrow> last (join [0x20] ts) = last (last ts)"
proof (induction ts)
  case (Cons t ts)
  then show ?case
    by (cases "ts = []") (auto simp: join_Cons join_Nil_iff)
qed simp

lemma dropWhile_hd_id: "xs = [] \<or> \<not> P (hd xs) \<Longrightarrow> dropWhile P xs = xs"
  by (cases xs) auto

lemma trim_id:
  assumes "s = [] \<or> (\<not> isWhiteSpace (hd s) \<and> \<not> isWhiteSpace (last s))"
  shows "trim s = s"
proof -
  from assms have "dropWhile isWhiteSpace s = s" by (intro dropWhile_hd_id) auto
  moreover from assms have "dropWhile isWhiteSpace (rev s) = rev s"
    by (intro dropWhile_hd_id) (auto simp: hd_rev)
  ultimately show ?thesis by (simp add: trim_def)
qed

lemma trim_token: "is_token t \<Longrightarrow> trim t = t"
  by (rule trim_id) (auto simp: is_token_iff)

lemma trim_join: "\<forall>t\<in>set ts. is_token t \<Longrightarrow> trim (join [0x20] ts) = join [0x20] ts"
proof (cases ts)
  case (Cons t ts')
  assume tok: "\<forall>t\<in>set ts. is_token t"
  then have "is_token t" and "is_token (last ts)" using Cons by auto
  then have "\<not> isWhiteSpace (hd (join [0x20] ts))" and "\<not> isWhiteSpace (last (join [0x20] ts))"
    using Cons tok by (auto simp: hd_join last_join is_token_iff)
  then show ?thesis by (intro trim_id) simp
qed (simp add: trim_def)

lemma split_ws_join:
  "ts \<noteq> [] \<Longrightarrow> \<forall>t\<in>set ts. is_token t \<Longrightarrow> split_ws (join [0x20] ts) = ts"
proof (induction ts)
  case (Cons t ts)
  then have t: "\<forall>c\<in>set t. \<not> isWhiteSpace c" "t \<noteq> []" by (auto simp: is_token_iff)
  show ?case
  proof (cases "ts = []")
    case True
    from t have "dropWhile (\<lambda>c. \<not> isWhiteSpace c) t = []" by simp
    then show ?thesis using True by (simp add: split_ws_last)
  next
    case False
    let ?J = "join [0x20] ts"
    from False obtain u us where ts: "ts = u # us" by (cases ts) auto
    with Cons.prems have u: "is_token u" by simp
    have J: "?J \<noteq> []" using Cons.prems False by (simp add: join_Nil_iff)
    have "hd ?J = hd u" unfolding ts using u by (rule hd_join)
    with u have "\<not> isWhiteSpace (hd ?J)" by (auto simp: is_token_iff)
    with J have dJ: "dropWhile isWhiteSpace ?J = ?J" by (cases ?J) simp_all
    have d: "dropWhile (\<lambda>c. \<not> isWhiteSpace c) (t @ 0x20 # ?J) = 0x20 # ?J"
      using t by (simp add: dropWhile_append)
    have k: "takeWhile (\<lambda>c. \<not> isWhiteSpace c) (t @ 0x20 # ?J) = t"
      using t by (simp add: takeWhile_append)
    have "split_ws (t @ 0x20 # ?J) = t # split_ws ?J"
      using split_ws_next [OF d] k dJ by simp
    moreover have "split_ws ?J = ts" using Cons False by simp
    ultimately show ?thesis using False by (simp add: join_Cons)
  qed
qed simp

lemma no_run_join:
  "c \<noteq> 0x20 \<Longrightarrow> \<forall>t\<in>set ts. no_run c t \<Longrightarrow> no_run c (join [0x20] ts)"
proof (induction ts)
  case (Cons t ts)
  then show ?case
    by (cases "ts = []") (auto simp: join_Cons no_run_def successively_append_iff successively_Cons)
qed (simp add: no_run_def)

subsection \<open>The tokens of the result\<close>

lemma clean_join: "cleanReasoningChain text = join [0x20] (fusedTokens text)"
  by (simp add: cleanReasoningChain_def fusedTokens_def)

lemma fusedTokens_token:
  assumes "t \<in> set (fusedTokens text)"
  shows "is_token t \<and> no_run 0x2E t \<and> no_run 0x3F t"
proof -
  let ?s = "replace_runs 0x3F (replace_runs 0x2E text)"
  from assms have "t \<in> set (filter (\<lambda>t. trim t \<noteq> []) (split_ws ?s))"
    using foldl_fuse_subset foldl_dedup_subset unfolding fusedTokens_def by fastforce
  then have t: "t \<in> set (split_ws ?s)" and ne: "trim t \<noteq> []" by simp_all
  from ne have "t \<noteq> []" by (auto simp: trim_def)
  with split_ws_tokens [OF t] have "is_token t" and sub: "sublist t ?s"
    by (simp_all add: is_token_iff)
  have "no_run 0x2E ?s" by (intro no_run_replace_runs_other no_run_replace_runs)
  moreover have "no_run 0x3F ?s" by (rule no_run_replace_runs)
  ultimately show ?thesis using sub \<open>is_token t\<close> by (blast intro: no_run_sublist)
qed

lemma fusedTokens_unrelated: "successively (\<lambda>a b. \<not> related a b) (fusedTokens text)"
  unfolding fusedTokens_def by (rule foldl_fuse_unrelated) simp

lemma fusedTokens_join: "fusedTokens (join [0x20] (fusedTokens text)) = fusedTokens text"
proof -
  let ?F = "fusedTokens text"
  let ?J = "join [0x20] ?F"
  have tok: "\<forall>t\<in>set ?F. is_token t" using fusedTokens_token by blast
  have "no_run 0x2E ?J" by (rule no_run_join) (use fusedTokens_token in auto)
  then have 1: "replace_runs 0x2E ?J = ?J" by (rule replace_runs_id)
  have "no_run 0x3F ?J" by (rule no_run_join) (use fusedTokens_token in auto)
  then have 2: "replace_runs 0x3F ?J = ?J" by (rule replace_runs_id)
  have 3: "filter (\<lambda>t. trim t \<noteq> []) (split_ws ?J) = ?F"
  proof (cases "?F = []")
    case True
    then show ?thesis by (simp add: split_ws_last trim_def)
  next
    case False
    then have "split_ws ?J = ?F" using tok by (rule split_ws_join)
    moreover have "filter (\<lambda>t. trim t \<noteq> []) ?F = ?F"
      using tok by (auto simp: filter_id_conv trim_token is_token_iff)
    ultimately show ?thesis by simp
  qed
  have 4: "foldl dedup_step [] ?F = ?F"
    using foldl_dedup_id [of "[]" ?F] unrelated_distinct_adj [OF fusedTokens_unrelated] by simp
  have 5: "foldl fuse_step [] ?F = ?F"
    using foldl_fuse_id [of "[]" ?F] fusedTokens_unrelated by simp
  show ?thesis
    by (subst fusedTokens_def) (simp only: 1 2 3 4 5)
qed


text \<open>
  The rule of the fusion loop: when the current token and the last placed one are related
  by \<open>endsWith\<close>, the longer of the two stays in the last position and nothing is pushed.
\<close>

lemma fuse_step_related:
  "related t lst \<Longrightarrow>
   fuse_step (acc @ [lst]) t = acc @ [if length t > length lst then t else lst]"
  by (simp add: fuse_step_def related_def)

text \<open>
  Claim C1. For the input made of the token \<open>resolu\<close>, a space and the whole word
  (\<open>resolu\<close> followed by the code units \<open>E7 E3 6F\<close>), the fusion step is expected to
  leave the whole word alone, as the comment above the loop announces. The loop tests
  \<open>endsWith\<close> in both directions, and \<open>resolu\<close> is a prefix, not a suffix, of the
  whole word: the function returns its input unchanged.
\<close>

theorem cleanReasoningChain_resolu:
  "cleanReasoningChain (str ''resolu resolu'' @ [0xE7, 0xE3, 0x6F])
     = str ''resolu resolu'' @ [0xE7, 0xE3, 0x6F] \<and>
   cleanReasoningChain (str ''resolu resolu'' @ [0xE7, 0xE3, 0x6F])
     \<noteq> str ''resolu'' @ [0xE7, 0xE3, 0x6F]"
  by code_simp

text \<open>
  Claim C4. \<open>cleanReasoningChain\<close> is idempotent: cleaning a cleaned text changes
  nothing, for every input.
\<close>

theorem cleanReasoningChain_idempotent:
  "cleanReasoningChain (cleanReasoningChain x) = cleanReasoningChain x"
  by (simp only: clean_join fusedTokens_join)

theorem cleanReasoningChain_idempotent_witness:
  "cleanReasoningChain (cleanReasoningChain (str ''  So... so so  what?? hat?  '')) = str ''So. so what?''"
proof -
  have "cleanReasoningChain (str ''  So... so so  what?? hat?  '') = str ''So. so what?''"
    by code_simp
  then show ?thesis
    using cleanReasoningChain_idempotent [of "str ''  So... so so  what?? hat?  ''"] by simp
qed

text \<open>
  Claim C9. The result of \<open>cleanReasoningChain\<close> has no white space at either end and
  is a sequence of tokens joined by exactly one space each; every token is non-empty and
  free of white space, and no two consecutive tokens are equal.
\<close>

theorem cleanReasoningChain_normalized:
  "trim (cleanReasoningChain x) = cleanReasoningChain x \<and>
   (\<exists>ts. cleanReasoningChain x = join (str '' '') ts \<and> list_all is_token ts \<and> distinct_adj ts)"
proof -
  let ?F = "fusedTokens x"
  have tok: "\<forall>t\<in>set ?F. is_token t" using fusedTokens_token by blast
  then have "trim (cleanReasoningChain x) = cleanReasoningChain x"
    by (simp add: clean_join trim_join)
  moreover have "distinct_adj ?F" by (rule unrelated_distinct_adj [OF fusedTokens_unrelated])
  moreover have "list_all is_token ?F" using tok by (simp add: list_all_iff)
  ultimately show ?thesis using clean_join [of x] unfolding str_space by blast
qed

theorem cleanReasoningChain_normalized_witness:
  "trim (str ''So. so what?'') = str ''So. so what?'' \<and>
   (\<exists>ts. str ''So. so what?'' = join (str '' '') ts \<and> list_all is_token ts \<and> distinct_adj ts)"
proof -
  have "cleanReasoningChain (str ''  So... so so  what?? hat?  '') = str ''So. so what?''"
    by code_simp
  then show ?thesis
    using cleanReasoningChain_normalized [of "str ''  So... so so  what?? hat?  ''"] by simp
qed

section \<open>Chunks, lines and the sample stream\<close>

lemma split_char_last:
  assumes "dropWhile (\<lambda>x. x \<noteq> c) s = []"
  shows "split_char c s = [s]"
  by (subst split_char.simps, subst assms) simp

lemma split_char_next:
  assumes "dropWhile (\<lambda>x. x \<noteq> c) s = w # rest"
  shows "split_char c s = takeWhile (\<lambda>x. x \<noteq> c) s # split_char c rest"
  by (subst split_char.simps, subst assms) simp

lemma split_char_line:
  assumes "c \<notin> set l"
  shows "split_char c (l @ c # rest) = l # split_char c rest"
proof -
  have "dropWhile (\<lambda>x. x \<noteq> c) (l @ c # rest) = c # rest"
    using assms by (simp add: dropWhile_append) 
  moreover have "takeWhile (\<lambda>x. x \<noteq> c) (l @ c # rest) = l"
    using assms by (simp add: takeWhile_append) 
  ultimately show ?thesis using split_char_next by metis
qed

lemma trim_Nil [simp]: "trim [] = []"
  by (simp add: trim_def)

lemma trim_nonblank: "l \<noteq> [] \<Longrightarrow> \<not> isWhiteSpace (hd l) \<Longrightarrow> trim l \<noteq> []"
  by (cases l) (auto simp: trim_def dropWhile_eq_Nil_conv)

lemma chunk_lines_chunk_of:
  "\<forall>l\<in>set ls. 0xA \<notin> set l \<and> trim l \<noteq> [] \<Longrightarrow> chunk_lines (chunk_of ls) = ls"
proof (induction ls)
  case Nil
  show ?case by (simp add: chunk_lines_def chunk_of_def split_char_last)
next
  case (Cons l ls)
  then have l: "0xA \<notin> set l" "trim l \<noteq> []" by simp_all
  have "split_char 0xA (chunk_of (l # ls)) = l # [] # split_char 0xA (chunk_of ls)"
    using split_char_line [OF l(1), of "0xA # chunk_of ls"] split_char_line [of "0xA" "[]" "chunk_of ls"]
    by (simp add: chunk_of_def)
  with Cons l show ?case by (simp add: chunk_lines_def)
qed

lemmas sample_defs = data_line_def json_r1_def json_r2_def json_c1_def json_c2_def json_fin_def
  json_odd_def done_line_def str_def

lemma sample_lines_plain:
  "0xA \<notin> set (data_line json_r1) \<and> trim (data_line json_r1) \<noteq> []"
  "0xA \<notin> set (data_line json_r2) \<and> trim (data_line json_r2) \<noteq> []"
  "0xA \<notin> set (data_line json_c1) \<and> trim (data_line json_c1) \<noteq> []"
  "0xA \<notin> set (data_line json_c2) \<and> trim (data_line json_c2) \<noteq> []"
  "0xA \<notin> set (data_line json_fin) \<and> trim (data_line json_fin) \<noteq> []"
  "0xA \<notin> set done_line \<and> trim done_line \<noteq> []"
  by (simp_all add: sample_defs trim_nonblank isWhiteSpace_def)

lemma sample_chunk_lines: "concat (map chunk_lines sample_chunks) =
     [data_line json_r1, data_line json_r2] @ [data_line json_c1, data_line json_c2]
       @ [data_line json_fin, done_line]"
  by (simp add: sample_chunks_def chunk_lines_chunk_of sample_lines_plain)

lemmas sample_parse_defs = is_sentinel_def trim_def isWhiteSpace_def payload_def sample_defs
  sample_parser_def delta_event_def event_fields_def choice0_def

lemma sample_reasoning_lines: "list_all2 (reasoning_line sample_parser) [data_line json_r1, data_line json_r2]
     [str ''So... '', str ''so what??'']"
  by (simp add: reasoning_line_def reasoning_delta_def sample_parse_defs)

lemma sample_content_lines: "list_all2 (content_line sample_parser) [data_line json_c1, data_line json_c2]
     [str ''Hi'', str '' there'']"
  by (simp add: content_line_def content_delta_def sample_parse_defs)

lemma sample_finish_line: "finish_line sample_parser (data_line json_fin)" 
  by (simp add: finish_line_def finish_event_def sample_parse_defs)
lemma sample_done_line: "is_sentinel done_line"
  by (simp add: sample_parse_defs)
lemma sample_clean: "cleanReasoningChain (concat [str ''So... '', str ''so what??'']) = str ''So. so what?''"
    by code_simp

lemma payload_data_line [simp]: "payload (data_line t) = t"
  by (simp add: payload_def data_line_def str_def)

lemma sample_not_sentinel [simp]:
  "\<not> is_sentinel (data_line json_r1)" "\<not> is_sentinel (data_line json_r2)"
  "\<not> is_sentinel (data_line json_c1)" "\<not> is_sentinel (data_line json_c2)"
  "\<not> is_sentinel (data_line json_fin)" "\<not> is_sentinel (data_line json_bad)"
  "\<not> is_sentinel json_c1"
  by (simp_all add: sample_parse_defs json_bad_def)

lemma sample_bad [simp]: "sample_parser json_bad = None"
  by (simp add: sample_parse_defs json_bad_def)

lemma sample_bad_plain:
  "0xA \<notin> set (data_line json_bad) \<and> trim (data_line json_bad) \<noteq> []"
  by (simp add: sample_defs json_bad_def trim_nonblank isWhiteSpace_def)

lemma sample_c1: "content_line sample_parser (data_line json_c1) (str ''Hi'')"
  and sample_c2: "content_line sample_parser (data_line json_c2) (str '' there'')"
  using sample_content_lines by simp_all

lemma sample_r1: "reasoning_line sample_parser (data_line json_r1) (str ''So... '')"
  and sample_r2: "reasoning_line sample_parser (data_line json_r2) (str ''so what??'')"
  using sample_reasoning_lines by simp_all

lemma ok_200 [simp]: "response_ok 200" and not_ok_404 [simp]: "\<not> response_ok 404"
  by (simp_all add: response_ok_def)

lemma dec_404: "dec 404 = str ''404''"
  by (simp add: dec.simps str_def)

section \<open>Properties of the first version's stream processing\<close>

subsection \<open>One parsed payload\<close>

lemma get_truthy: "truthy v \<Longrightarrow> \<exists>x. get v k = Inr x"
  by (cases "(v, k)" rule: get.cases) auto

lemma get_not_nullish: "\<not> nullish v \<Longrightarrow> \<exists>x. get v k = Inr x"
  by (cases "(v, k)" rule: get.cases) auto

lemma nullish_Some: "\<not> nullish (Some v) \<longleftrightarrow> v \<noteq> JNull"
  by (cases v) auto

lemma nullish_not_truthy: "nullish v \<Longrightarrow> \<not> truthy v"
  by (cases v rule: nullish.cases) auto

lemma appendContent_to_string:
  "to_string v = Some t \<Longrightarrow>
   appendContentToFinalMessage (JStr t) s = appendContentToFinalMessage v s"
  by (simp add: appendContentToFinalMessage_def Let_def)

lemma is_text_cases:
  "is_text (if nullish v then None else v) \<longleftrightarrow>
     v = None \<or> v = Some JNull \<or> (\<exists>t. v = Some (JStr t))"
  by (cases v rule: is_text.cases) auto

lemma classify_None: "classify d = None \<longleftrightarrow> read_event d = None"
  by (auto simp: classify_def split: option.splits)

lemma string_deltas_None: "read_event d = None \<Longrightarrow> string_deltas d"
  by (simp add: string_deltas_def)

lemma handle_data_classify:
  assumes "string_deltas d"
  shows "handle_data d (fin, s) =
     (case classify d of
        None \<Rightarrow> Inl (fin, s)
      | Some (f, r, c) \<Rightarrow> Inr (fin \<or> f, add_content c (add_reasoning r s)))"
proof -
  obtain choices where "get (Some d) K_choices = Inl () \<or> get (Some d) K_choices = Inr choices"
    by (cases "get (Some d) K_choices") auto
  then show ?thesis
  proof
    assume "get (Some d) K_choices = Inl ()"
    then show ?thesis by (simp add: handle_data_def classify_def read_event_def)
  next
    assume ch: "get (Some d) K_choices = Inr choices"
    define choice where "choice = (if nullish choices then None else projr (get choices K_0))"
    have c0: "(if nullish choices then Inr None else get choices K_0) = Inr choice"
      using get_not_nullish [of choices K_0] by (auto simp: choice_def)
    show ?thesis
    proof (cases "truthy choice")
      case False
      then show ?thesis using ch c0
        by (simp add: handle_data_def classify_def read_event_def add_content_def
              add_reasoning_def)
    next
      case True
      obtain fr where fr: "get choice K_finish_reason = Inr fr" using get_truthy [OF True] by blast
      obtain delta where dl: "get choice K_delta = Inr delta" using get_truthy [OF True] by blast
      show ?thesis
      proof (cases "truthy delta")
        case False
        then show ?thesis using ch c0 True fr dl
          by (simp add: handle_data_def classify_def read_event_def add_content_def
                add_reasoning_def)
      next
        case dt: True
        obtain rc where rc: "get delta K_reasoning_content = Inr rc" using get_truthy [OF dt] by blast
        obtain c where c: "get delta K_content = Inr c" using get_truthy [OF dt] by blast
        have re: "read_event d =
            Some (truthy fr, (if nullish rc then None else rc), (if nullish c then None else c))"
          using ch c0 True fr dl dt rc c by (simp add: read_event_def)
        with assms have "is_text (if nullish rc then None else rc)"
          and "is_text (if nullish c then None else c)"
          by (simp_all add: string_deltas_def)
        then have rcs: "rc = None \<or> rc = Some JNull \<or> (\<exists>t. rc = Some (JStr t))"
          and cs: "c = None \<or> c = Some JNull \<or> (\<exists>t. c = Some (JStr t))"
          by (simp_all only: is_text_cases)
        have cl: "classify d =
            Some (truthy fr, Option.bind (if nullish rc then None else rc) to_string,
                  Option.bind (if nullish c then None else c) to_string)"
          by (simp add: classify_def re)
        from rcs cs show ?thesis
          unfolding cl using ch c0 True fr dl dt rc c
          by (auto simp: handle_data_def add_content_def add_reasoning_def Let_def)
      qed
    qed
  qed
qed

text \<open>
  A reasoning delta that cannot be converted to a string: the TypeError of \<open>+=\<close> leaves
  the state as it is, and the content of the same event is not added.
\<close>

lemma handle_data_reasoning_throws:
  "handle_data
     (delta_event [(str ''reasoning_content'', JObj [(str ''toString'', JNum (str ''1''))]),
                   (str ''content'', JStr (str ''X''))]) (fin, s) = Inl (fin, s)"
  by (simp add: handle_data_def delta_event_def str_def)

lemma process_line_None:
  "p (payload l) = None \<Longrightarrow>
   process_line p l fs = ([JSON_parse (payload l), Console_error (str ''Error parsing chunk:'')], fs)"
  by (simp add: process_line_def)

lemma process_line_TypeError:
  assumes "p (payload l) = Some d" and "classify d = None"
  shows "process_line p l fs =
     ([JSON_parse (payload l), Console_error (str ''Error parsing chunk:'')], fs)"
proof -
  from assms(2) have "string_deltas d" by (simp add: classify_None string_deltas_None)
  from handle_data_classify [OF this] assms show ?thesis
    by (cases fs) (simp add: process_line_def)
qed

lemma process_line_event:
  "p (payload l) = Some d \<Longrightarrow> string_deltas d \<Longrightarrow> classify d = Some (f, r, c) \<Longrightarrow>
   process_line p l (fin, s) =
     ([JSON_parse (payload l)], (fin \<or> f, add_content c (add_reasoning r s)))"
  by (simp add: process_line_def handle_data_classify)

lemma key_names:
  "key_name K_choices = str ''choices''" "key_name K_finish_reason = str ''finish_reason''"
  "key_name K_delta = str ''delta''" "key_name K_reasoning_content = str ''reasoning_content''"
  "key_name K_content = str ''content''"
  by simp_all

lemma choice0_get:
  assumes "choice0 d = Some ch"
  shows "\<exists>choices. get (Some d) K_choices = Inr choices \<and> \<not> nullish choices \<and>
           get choices K_0 = Inr (Some (JObj ch))"
  using assms
  by (auto simp: choice0_def split: json.splits option.splits list.splits)

lemma nullish_cases: "nullish v \<longleftrightarrow> v = None \<or> v = Some JNull"
  by (cases v rule: nullish.cases) auto

lemma read_event_choice0:
  assumes "choice0 d = Some ch"
  shows "read_event d =
     (let finish_reason = map_of ch (str ''finish_reason''); delta = map_of ch (str ''delta'') in
      if \<not> truthy delta then Some (truthy finish_reason, None, None) else
      case get delta K_reasoning_content of Inl _ \<Rightarrow> None | Inr rc \<Rightarrow>
      case get delta K_content of Inl _ \<Rightarrow> None | Inr c \<Rightarrow>
        Some (truthy finish_reason,
              (if nullish rc then None else rc), (if nullish c then None else c)))"
proof -
  from choice0_get [OF assms] obtain choices where
    "get (Some d) K_choices = Inr choices" "\<not> nullish choices"
    "get choices K_0 = Inr (Some (JObj ch))" by blast
  then show ?thesis
    unfolding read_event_def by (simp add: Let_def)
qed

lemma read_event_reasoning_delta:
  "reasoning_delta d r \<Longrightarrow> read_event d = Some (False, Some (JStr r), None)"
  unfolding reasoning_delta_def event_fields_def
  by (auto simp: read_event_choice0 nullish_cases split: option.splits json.splits)

lemma read_event_content_delta:
  "content_delta d c \<Longrightarrow> read_event d = Some (False, None, Some (JStr c))"
  unfolding content_delta_def event_fields_def
  by (auto simp: read_event_choice0 nullish_cases split: option.splits json.splits)

lemma read_event_finish_event:
  "finish_event d \<Longrightarrow> read_event d = Some (True, None, None)"
  unfolding finish_event_def
  by (auto simp: read_event_choice0 nullish_cases split: option.splits json.splits)

lemma classify_reasoning_delta:
  "reasoning_delta d r \<Longrightarrow> classify d = Some (False, Some r, None)"
  by (simp add: classify_def read_event_reasoning_delta)

lemma classify_content_delta:
  "content_delta d c \<Longrightarrow> classify d = Some (False, None, Some c)"
  by (simp add: classify_def read_event_content_delta)

lemma classify_finish_event:
  "finish_event d \<Longrightarrow> classify d = Some (True, None, None)"
  by (simp add: classify_def read_event_finish_event)

lemma string_reasoning_delta: "reasoning_delta d r \<Longrightarrow> string_deltas d"
  by (simp add: string_deltas_def read_event_reasoning_delta)

lemma string_content_delta: "content_delta d c \<Longrightarrow> string_deltas d"
  by (simp add: string_deltas_def read_event_content_delta)

lemma string_finish_event: "finish_event d \<Longrightarrow> string_deltas d"
  by (simp add: string_deltas_def read_event_finish_event)


subsection \<open>The loop over lines\<close>

lemma process_lines_append:
  "\<forall>l\<in>set a. \<not> is_sentinel l \<Longrightarrow>
   process_lines p (a @ b) fs =
     (case process_lines p a fs of (t1, fs1) \<Rightarrow>
      case process_lines p b fs1 of (t2, fs2) \<Rightarrow> (t1 @ t2, fs2))"
  by (induction a arbitrary: fs) (auto split: prod.splits)

lemma process_lines_append_snd:
  "\<forall>l\<in>set a. \<not> is_sentinel l \<Longrightarrow>
   snd (process_lines p (a @ b) fs) = snd (process_lines p b (snd (process_lines p a fs)))"
  by (simp add: process_lines_append split: prod.splits)

lemma process_lines_append_fst:
  "\<forall>l\<in>set a. \<not> is_sentinel l \<Longrightarrow>
   fst (process_lines p (a @ b) fs) =
     fst (process_lines p a fs) @ fst (process_lines p b (snd (process_lines p a fs)))"
  by (simp add: process_lines_append split: prod.splits)

lemma process_lines_sentinel:
  "is_sentinel l \<Longrightarrow> process_lines p (l # ls) fs = ([], (True, snd fs))"
  by simp

lemma process_lines_not_finished:
  "\<not> fst (snd (process_lines p ls fs)) \<Longrightarrow> \<forall>l\<in>set ls. \<not> is_sentinel l"
proof (induction ls arbitrary: fs)
  case (Cons l ls)
  have ns: "\<not> is_sentinel l" using Cons.prems by auto
  obtain t1 fs1 where pl: "process_line p l fs = (t1, fs1)" by (metis prod.collapse)
  from Cons.prems ns pl have "\<not> fst (snd (process_lines p ls fs1))"
    by (simp split: prod.splits)
  then have "\<forall>l\<in>set ls. \<not> is_sentinel l" by (rule Cons.IH)
  with ns show ?case by simp
qed simp

lemma process_lines_Cons_snd:
  "\<not> is_sentinel l \<Longrightarrow>
   snd (process_lines p (l # ls) fs) = snd (process_lines p ls (snd (process_line p l fs)))"
  by (simp split: prod.splits)

lemma process_lines_Cons_fst:
  "\<not> is_sentinel l \<Longrightarrow>
   fst (process_lines p (l # ls) fs) =
     fst (process_line p l fs) @ fst (process_lines p ls (snd (process_line p l fs)))"
  by (simp split: prod.splits)

lemma process_line_quiet:
  assumes "quiet_line p l"
  shows "fst (snd (process_line p l (fin, s))) = fin"
proof (cases "p (payload l)")
  case None
  then show ?thesis by (simp add: process_line_None)
next
  case d: (Some d)
  show ?thesis
  proof (cases "classify d")
    case None
    with d show ?thesis by (simp add: process_line_TypeError)
  next
    case (Some ev)
    obtain f r c where ev: "ev = (f, r, c)" by (cases ev)
    with Some d assms have "\<not> f" and sd: "string_deltas d" by (simp_all add: quiet_line_def)
    with process_line_event [where p = p and l = l, OF d sd Some [unfolded ev], of fin s]
    show ?thesis by simp
  qed
qed

lemma process_lines_quiet:
  assumes "\<forall>l\<in>set ls. quiet_line p l"
  shows "fst (snd (process_lines p ls (fin, s))) = fin"
  using assms
proof (induction ls arbitrary: fin s)
  case (Cons l ls)
  obtain t1 f1 s1 where pl: "process_line p l (fin, s) = (t1, (f1, s1))"
    by (metis prod.collapse)
  from Cons.prems have q: "quiet_line p l" by simp
  from process_line_quiet [OF q, of fin s] pl have "f1 = fin" by simp
  moreover have "fst (snd (process_lines p ls (f1, s1))) = f1"
    using Cons.prems by (intro Cons.IH) simp
  moreover from q have "\<not> is_sentinel l" by (simp add: quiet_line_def)
  ultimately show ?case using pl by (simp add: process_lines_Cons_snd del: process_lines.simps)
qed simp

lemma reasoning_line_quiet: "reasoning_line p l r \<Longrightarrow> quiet_line p l"
  by (auto simp: reasoning_line_def quiet_line_def string_reasoning_delta
        dest: classify_reasoning_delta split: option.splits)

lemma content_line_quiet: "content_line p l c \<Longrightarrow> quiet_line p l"
  by (auto simp: content_line_def quiet_line_def string_content_delta
        dest: classify_content_delta split: option.splits)

lemma process_lines_reasoning:
  "list_all2 (reasoning_line p) ls rs \<Longrightarrow>
   snd (process_lines p ls (fin, s)) =
     (fin, s\<lparr>reasoningAccumulatorRef := reasoningAccumulatorRef s @ concat rs\<rparr>)"
proof (induction ls rs arbitrary: s rule: list_all2_induct)
  case (Cons l ls r rs)
  from Cons(1) obtain d where ns: "\<not> is_sentinel l" and d: "p (payload l) = Some d"
    and rd: "reasoning_delta d r"
    by (auto simp: reasoning_line_def split: option.splits)
  have "process_line p l (fin, s) =
      ([JSON_parse (payload l)],
       (fin, s\<lparr>reasoningAccumulatorRef := reasoningAccumulatorRef s @ r\<rparr>))"
    using process_line_event [where p = p and l = l, OF d string_reasoning_delta [OF rd]
        classify_reasoning_delta [OF rd]]
    by (simp add: add_content_def add_reasoning_def)
  then show ?case using ns Cons.IH by (simp add: process_lines_Cons_snd del: process_lines.simps)
qed simp

lemma add_content_first:
  "\<not> alreadyCreatedRef s \<Longrightarrow>
   add_content (Some c) s =
     s\<lparr>messages := messages s @ [open_answer c],
       answerMessageIndexRef := int (length (messages s)),
       alreadyCreatedRef := True\<rparr>"
  by (simp add: add_content_def createFinalMessage_def appendContentToFinalMessage_def
        open_answer_def Let_def)

lemma add_content_next:
  "alreadyCreatedRef s \<Longrightarrow> answerMessageIndexRef s = int i \<Longrightarrow> i < length (messages s) \<Longrightarrow>
   add_content (Some c) s =
     s\<lparr>messages := (messages s)[i := (messages s ! i)\<lparr>content := content (messages s ! i) @ c\<rparr>]\<rparr>"
  by (simp add: add_content_def appendContentToFinalMessage_def Let_def)

lemma process_lines_content_next:
  "list_all2 (content_line p) ls cs \<Longrightarrow>
   alreadyCreatedRef s \<Longrightarrow> answerMessageIndexRef s = int i \<Longrightarrow> i < length (messages s) \<Longrightarrow>
   snd (process_lines p ls (fin, s)) =
     (fin, s\<lparr>messages :=
        (messages s)[i := (messages s ! i)\<lparr>content := content (messages s ! i) @ concat cs\<rparr>]\<rparr>)"
proof (induction ls cs arbitrary: s rule: list_all2_induct)
  case (Cons l ls c cs)
  from Cons(1) obtain d where ns: "\<not> is_sentinel l" and d: "p (payload l) = Some d"
    and cd: "content_delta d c"
    by (auto simp: content_line_def split: option.splits)
  let ?s1 = "s\<lparr>messages :=
     (messages s)[i := (messages s ! i)\<lparr>content := content (messages s ! i) @ c\<rparr>]\<rparr>"
  have pl: "process_line p l (fin, s) = ([JSON_parse (payload l)], (fin, ?s1))"
    using process_line_event [where p = p and l = l, OF d string_content_delta [OF cd]
        classify_content_delta [OF cd]] Cons.prems
    by (simp add: add_reasoning_def add_content_next)
  have "snd (process_lines p ls (fin, ?s1)) =
     (fin, ?s1\<lparr>messages :=
        (messages ?s1)[i := (messages ?s1 ! i)\<lparr>content := content (messages ?s1 ! i) @ concat cs\<rparr>]\<rparr>)"
    using Cons.prems by (intro Cons.IH) simp_all
  then show ?case using ns pl Cons.prems
    by (simp add: process_lines_Cons_snd del: process_lines.simps)
qed simp

lemma process_lines_content:
  assumes "list_all2 (content_line p) ls cs" and "cs \<noteq> []" and "\<not> alreadyCreatedRef s"
  shows "snd (process_lines p ls (fin, s)) =
     (fin, s\<lparr>messages := messages s @ [open_answer (concat cs)],
             answerMessageIndexRef := int (length (messages s)),
             alreadyCreatedRef := True\<rparr>)"
proof -
  from assms(1,2) obtain l ls' c cs' where ls: "ls = l # ls'" and cs: "cs = c # cs'"
    and l: "content_line p l c" and rest: "list_all2 (content_line p) ls' cs'"
    by (cases ls; cases cs) auto
  from l obtain d where ns: "\<not> is_sentinel l" and d: "p (payload l) = Some d"
    and cd: "content_delta d c"
    by (auto simp: content_line_def split: option.splits)
  let ?s1 = "s\<lparr>messages := messages s @ [open_answer c],
       answerMessageIndexRef := int (length (messages s)),
       alreadyCreatedRef := True\<rparr>"
  have pl: "process_line p l (fin, s) = ([JSON_parse (payload l)], (fin, ?s1))"
    using process_line_event [where p = p and l = l, OF d string_content_delta [OF cd]
        classify_content_delta [OF cd]] assms(3)
    by (simp add: add_reasoning_def add_content_first)
  have "snd (process_lines p ls' (fin, ?s1)) =
     (fin, ?s1\<lparr>messages := (messages ?s1)[length (messages s) :=
        (messages ?s1 ! length (messages s))\<lparr>content :=
           content (messages ?s1 ! length (messages s)) @ concat cs'\<rparr>]\<rparr>)"
    using rest by (rule process_lines_content_next) simp_all
  then show ?thesis using ns pl ls cs
    by (simp add: open_answer_def process_lines_Cons_snd del: process_lines.simps)
qed

lemma process_line_content:
  assumes "content_line p l c"
  shows "process_line p l (fin, s) = ([JSON_parse (payload l)], (fin, add_content (Some c) s))"
proof -
  from assms obtain d where d: "p (payload l) = Some d" and cd: "content_delta d c"
    by (auto simp: content_line_def split: option.splits)
  show ?thesis
    using process_line_event [where p = p and l = l, OF d string_content_delta [OF cd]
        classify_content_delta [OF cd]]
    by (simp add: add_reasoning_def)
qed

lemma process_line_finish:
  assumes "finish_line p l"
  shows "process_line p l (fin, s) = ([JSON_parse (payload l)], (True, s))"
proof -
  from assms obtain d where d: "p (payload l) = Some d" and fe: "finish_event d"
    by (auto simp: finish_line_def split: option.splits)
  show ?thesis
    using process_line_event [where p = p and l = l, OF d string_finish_event [OF fe]
        classify_finish_event [OF fe]]
    by (simp add: add_content_def add_reasoning_def)
qed

subsection \<open>The loop over reads\<close>

lemma read_loop_chunks:
  "\<not> fin \<Longrightarrow>
   \<exists>L1 L2. concat (map chunk_lines cs) = L1 @ L2 \<and>
     (L2 = [] \<or> fst (snd (process_lines p L1 (fin, s)))) \<and>
     read_loop p (map Chunk cs) (fin, s) =
       (fst (process_lines p L1 (fin, s)), Inr (snd (process_lines p L1 (fin, s))))"
proof (induction cs arbitrary: fin s)
  case Nil
  show ?case by simp
next
  case (Cons c cs)
  obtain t1 f1 s1 where pl: "process_lines p (chunk_lines c) (fin, s) = (t1, (f1, s1))"
    by (metis prod.collapse)
  show ?case
  proof (cases f1)
    case True
    with pl have "concat (map chunk_lines (c # cs)) = chunk_lines c @ concat (map chunk_lines cs) \<and>
      (concat (map chunk_lines cs) = [] \<or> fst (snd (process_lines p (chunk_lines c) (fin, s)))) \<and>
      read_loop p (map Chunk (c # cs)) (fin, s) =
       (fst (process_lines p (chunk_lines c) (fin, s)),
        Inr (snd (process_lines p (chunk_lines c) (fin, s))))"
      by simp
    then show ?thesis by blast
  next
    case False
    from Cons.IH [OF False, of s1] obtain L1 L2 where
      c: "concat (map chunk_lines cs) = L1 @ L2" and
      f: "L2 = [] \<or> fst (snd (process_lines p L1 (f1, s1)))" and
      r: "read_loop p (map Chunk cs) (f1, s1) =
           (fst (process_lines p L1 (f1, s1)), Inr (snd (process_lines p L1 (f1, s1))))"
      by blast
    have ns: "\<forall>l\<in>set (chunk_lines c). \<not> is_sentinel l"
      using process_lines_not_finished [of p "chunk_lines c" "(fin, s)"] pl False by simp
    have app: "process_lines p (chunk_lines c @ L1) (fin, s) =
       (t1 @ fst (process_lines p L1 (f1, s1)), snd (process_lines p L1 (f1, s1)))"
      using process_lines_append [OF ns, of p L1 "(fin, s)"] pl by (simp split: prod.splits)
    have "concat (map chunk_lines (c # cs)) = (chunk_lines c @ L1) @ L2 \<and>
      (L2 = [] \<or> fst (snd (process_lines p (chunk_lines c @ L1) (fin, s)))) \<and>
      read_loop p (map Chunk (c # cs)) (fin, s) =
       (fst (process_lines p (chunk_lines c @ L1) (fin, s)),
        Inr (snd (process_lines p (chunk_lines c @ L1) (fin, s))))"
      using c f r pl False app by simp
    then show ?thesis by blast
  qed
qed


lemma list_all2_setD:
  "list_all2 P xs ys \<Longrightarrow> x \<in> set xs \<Longrightarrow> \<exists>y. P x y"
  by (induction xs ys rule: list_all2_induct) auto

lemma nat_one_plus_int: "nat (1 + int n) = Suc n"
  by simp

lemma append_two_cases:
  assumes "L1 @ L2 = X @ [a, b]"
  shows "(\<exists>Z. X = L1 @ Z) \<or> (L1 = X @ [a] \<and> L2 = [b]) \<or> (L1 = X @ [a, b] \<and> L2 = [])"
proof -
  from assms consider us where "L1 = X @ us" "us @ L2 = [a, b]" | us where "L1 @ us = X"
    by (auto simp: append_eq_append_conv2)
  then show ?thesis
  proof cases
    case 1
    from 1(2) have "us = [] \<or> (us = [a] \<and> L2 = [b]) \<or> (us = [a, b] \<and> L2 = [])"
      by (cases us; cases "tl us"; auto simp: Cons_eq_append_conv)
    with 1(1) show ?thesis by auto
  next
    case 2
    then show ?thesis by auto
  qed
qed

lemma stream_lines_state:
  assumes r: "list_all2 (reasoning_line p) ls_r rs"
    and c: "list_all2 (content_line p) ls_c cs" and ne: "cs \<noteq> []"
    and nc: "\<not> alreadyCreatedRef s"
  shows "snd (process_lines p (ls_r @ ls_c) (fin, s)) =
     (fin, s\<lparr>reasoningAccumulatorRef := reasoningAccumulatorRef s @ concat rs,
             messages := messages s @ [open_answer (concat cs)],
             answerMessageIndexRef := int (length (messages s)),
             alreadyCreatedRef := True\<rparr>)"
proof -
  have ns: "\<forall>l\<in>set ls_r. \<not> is_sentinel l"
    using list_all2_setD [OF r] by (auto simp: reasoning_line_def)
  let ?s1 = "s\<lparr>reasoningAccumulatorRef := reasoningAccumulatorRef s @ concat rs\<rparr>"
  have "snd (process_lines p (ls_r @ ls_c) (fin, s)) =
        snd (process_lines p ls_c (snd (process_lines p ls_r (fin, s))))"
    by (rule process_lines_append_snd [OF ns])
  also have "\<dots> = snd (process_lines p ls_c (fin, ?s1))"
    by (simp add: process_lines_reasoning [OF r])
  also have "\<dots> = (fin, ?s1\<lparr>messages := messages ?s1 @ [open_answer (concat cs)],
             answerMessageIndexRef := int (length (messages ?s1)),
             alreadyCreatedRef := True\<rparr>)"
    using c ne nc by (intro process_lines_content) simp_all
  finally show ?thesis by simp
qed

lemma stream_read_loop:
  assumes lines: "concat (map chunk_lines chunks) = ls_r @ ls_c @ [l_fin, l_done]"
    and r: "list_all2 (reasoning_line p) ls_r rs"
    and c: "list_all2 (content_line p) ls_c cs" and ne: "cs \<noteq> []"
    and f: "finish_line p l_fin" and d: "is_sentinel l_done"
    and nc: "\<not> alreadyCreatedRef s"
  shows "snd (read_loop p (map Chunk chunks) (False, s)) =
     Inr (True, s\<lparr>reasoningAccumulatorRef := reasoningAccumulatorRef s @ concat rs,
             messages := messages s @ [open_answer (concat cs)],
             answerMessageIndexRef := int (length (messages s)),
             alreadyCreatedRef := True\<rparr>)"
proof -
  let ?X = "ls_r @ ls_c"
  let ?S = "s\<lparr>reasoningAccumulatorRef := reasoningAccumulatorRef s @ concat rs,
             messages := messages s @ [open_answer (concat cs)],
             answerMessageIndexRef := int (length (messages s)),
             alreadyCreatedRef := True\<rparr>"
  have X: "snd (process_lines p ?X (False, s)) = (False, ?S)"
    by (rule stream_lines_state [OF r c ne nc])
  have quiet: "\<forall>l\<in>set ?X. quiet_line p l"
    using list_all2_setD [OF r] list_all2_setD [OF c]
    by (auto intro: reasoning_line_quiet content_line_quiet)
  then have ns: "\<forall>l\<in>set ?X. \<not> is_sentinel l" by (simp add: quiet_line_def)
  from f have nf: "\<not> is_sentinel l_fin" by (simp add: finish_line_def)
  have "snd (process_lines p (?X @ [l_fin]) (False, s)) =
        snd (process_lines p [l_fin] (snd (process_lines p ?X (False, s))))"
    by (rule process_lines_append_snd [OF ns])
  also have "\<dots> = (True, ?S)"
    unfolding X using nf
    by (simp add: process_lines_Cons_snd process_line_finish [OF f] del: process_lines.simps(2))
  finally have Xa: "snd (process_lines p (?X @ [l_fin]) (False, s)) = (True, ?S)" .
  have "snd (process_lines p (?X @ [l_fin, l_done]) (False, s)) =
        snd (process_lines p [l_fin, l_done] (snd (process_lines p ?X (False, s))))"
    by (rule process_lines_append_snd [OF ns])
  also have "\<dots> = (True, ?S)"
    unfolding X using nf
    by (simp add: process_lines_Cons_snd process_line_finish [OF f]
          process_lines_sentinel [OF d] del: process_lines.simps(2))
  finally have Xab: "snd (process_lines p (?X @ [l_fin, l_done]) (False, s)) = (True, ?S)" .
  from read_loop_chunks [of False chunks p s] obtain L1 L2 where
    cat: "concat (map chunk_lines chunks) = L1 @ L2" and
    stop: "L2 = [] \<or> fst (snd (process_lines p L1 (False, s)))" and
    rl: "read_loop p (map Chunk chunks) (False, s) =
       (fst (process_lines p L1 (False, s)), Inr (snd (process_lines p L1 (False, s))))"
    by blast
  from cat lines have "L1 @ L2 = ?X @ [l_fin, l_done]" by simp
  from append_two_cases [OF this]
  have "snd (process_lines p L1 (False, s)) = (True, ?S)"
  proof (elim disjE exE conjE)
    fix Z assume Z: "?X = L1 @ Z"
    then have "\<forall>l\<in>set L1. quiet_line p l" using quiet by (metis Un_iff set_append)
    then have "\<not> fst (snd (process_lines p L1 (False, s)))"
      by (simp add: process_lines_quiet)
    with stop have "L2 = []" by simp
    with \<open>L1 @ L2 = ?X @ [l_fin, l_done]\<close> Z have False by simp
    then show ?thesis ..
  next
    assume "L1 = ?X @ [l_fin]"
    with Xa show ?thesis by simp
  next
    assume "L1 = ?X @ [l_fin, l_done]"
    with Xab show ?thesis by simp
  qed
  with rl show ?thesis by simp
qed


lemma stream_turn_result:
  assumes "response_ok status"
    and "concat (map chunk_lines chunks) = ls_r @ ls_c @ [l_fin, l_done]"
    and "list_all2 (reasoning_line p) ls_r rs"
    and "list_all2 (content_line p) ls_c cs" and "cs \<noteq> []"
    and "finish_line p l_fin" and "is_sentinel l_done"
  shows "snd (handleSend p prompt (Fetch_resolved status (Some (map Chunk chunks))) s) =
     s\<lparr>messages := messages s @
          [user_message prompt,
           \<lparr>content = concat cs, isUser = False,
            reasoning = Some (cleanReasoningChain (concat rs)),
            isComplete = Some True, showReasoning = Some True\<rparr>],
       isLoading := False,
       answerMessageIndexRef := int (length (messages s)) + 1,
       alreadyCreatedRef := True,
       reasoningAccumulatorRef := []\<rparr>"
proof -
  let ?s1 = "start_turn prompt s"
  have nc: "\<not> alreadyCreatedRef ?s1" by (simp add: start_turn_def)
  obtain t where rl: "read_loop p (map Chunk chunks) (False, ?s1) = (t, 
     Inr (True, ?s1\<lparr>reasoningAccumulatorRef := reasoningAccumulatorRef ?s1 @ concat rs,
             messages := messages ?s1 @ [open_answer (concat cs)],
             answerMessageIndexRef := int (length (messages ?s1)),
             alreadyCreatedRef := True\<rparr>))"
    using stream_read_loop [OF assms(2-7) nc] by (metis prod.collapse)
  show ?thesis
    using assms(1) rl
    by (simp add: handleSend_def send_try_def finalizeMessage_def start_turn_def
          open_answer_def Let_def nth_append list_update_append nat_one_plus_int)
qed


text \<open>
  Claim C2. A stream of reasoning-only deltas, then content deltas (at least one), then a
  finish event, then the sentinel, however it is cut into chunks: the turn adds the
  user's message and exactly one answer message to the list; that message is complete,
  its content is the content deltas concatenated in order, and its reasoning is
  \<open>cleanReasoningChain\<close> of the reasoning deltas concatenated in order.
\<close>

theorem handleSend_stream:
  assumes "response_ok status"
    and "concat (map chunk_lines chunks) = ls_r @ ls_c @ [l_fin, l_done]"
    and "list_all2 (reasoning_line p) ls_r rs"
    and "list_all2 (content_line p) ls_c cs" and "cs \<noteq> []"
    and "finish_line p l_fin" and "is_sentinel l_done"
  shows "snd (handleSend p prompt (Fetch_resolved status (Some (map Chunk chunks))) s) =
     s\<lparr>messages := messages s @
          [user_message prompt,
           \<lparr>content = concat cs, isUser = False,
            reasoning = Some (cleanReasoningChain (concat rs)),
            isComplete = Some True, showReasoning = Some True\<rparr>],
       isLoading := False,
       answerMessageIndexRef := int (length (messages s)) + 1,
       alreadyCreatedRef := True,
       reasoningAccumulatorRef := []\<rparr>"
  using assms by (rule stream_turn_result)

theorem handleSend_stream_witness:
  "response_ok 200 \<and>
   concat (map chunk_lines sample_chunks) =
     [data_line json_r1, data_line json_r2] @ [data_line json_c1, data_line json_c2]
       @ [data_line json_fin, done_line] \<and>
   list_all2 (reasoning_line sample_parser) [data_line json_r1, data_line json_r2]
     [str ''So... '', str ''so what??''] \<and>
   list_all2 (content_line sample_parser) [data_line json_c1, data_line json_c2]
     [str ''Hi'', str '' there''] \<and>
   finish_line sample_parser (data_line json_fin) \<and> is_sentinel done_line \<and>
   snd (handleSend sample_parser (str ''hello'')
          (Fetch_resolved 200 (Some (map Chunk sample_chunks))) initial_state) =
     \<lparr>messages =
        [user_message (str ''hello''),
         \<lparr>content = str ''Hi'' @ str '' there'', isUser = False,
          reasoning = Some (str ''So. so what?''),
          isComplete = Some True, showReasoning = Some True\<rparr>],
      isLoading = False, renderFailed = False, answerMessageIndexRef = 1, alreadyCreatedRef = True,
      reasoningAccumulatorRef = []\<rparr>"
proof -
  have ok: "response_ok 200" by (simp add: response_ok_def)
  have ne: "[str ''Hi'', str '' there''] \<noteq> []" by simp
  show ?thesis
    using handleSend_stream [OF ok sample_chunk_lines sample_reasoning_lines
        sample_content_lines ne sample_finish_line sample_done_line,
        of "str ''hello''" initial_state]
      ok sample_chunk_lines sample_reasoning_lines sample_content_lines
      sample_finish_line sample_done_line
    unfolding sample_clean by (simp add: initial_state_def)
qed

subsection \<open>Results without the effects\<close>

lemma read_loop_Chunk_snd:
  "snd (read_loop p (Chunk c # rs) fs) =
     (if fst (snd (process_lines p (chunk_lines c) fs))
      then Inr (snd (process_lines p (chunk_lines c) fs))
      else snd (read_loop p rs (snd (process_lines p (chunk_lines c) fs))))"
  by (simp split: prod.splits)

lemma send_try_snd:
  "snd (send_try p (Fetch_resolved status (Some reads)) s) =
     (if \<not> response_ok status
      then Inl (Error (str ''HTTP error! status: '' @ dec status), s)
      else (case snd (read_loop p reads (False, s)) of
              Inl es \<Rightarrow> Inl es
            | Inr fs \<Rightarrow> Inr (finalizeMessage (snd fs))))"
  by (simp add: send_try_def split: prod.splits sum.splits)

lemma handleSend_snd:
  "snd (handleSend p prompt response s) =
     (case snd (send_try p response (start_turn prompt s)) of
        Inl (e, s') \<Rightarrow> s'\<lparr>messages := messages s' @ [error_message e], isLoading := False\<rparr>
      | Inr s' \<Rightarrow> s'\<lparr>isLoading := False\<rparr>)"
  by (simp add: handleSend_def split: prod.splits sum.splits)

subsection \<open>A line the parser rejects\<close>

lemma process_lines_skip:
  assumes "p (payload l) = None" and "\<not> is_sentinel l"
  shows "snd (process_lines p (pre @ l # post) fs) = snd (process_lines p (pre @ post) fs)"
proof (induction pre arbitrary: fs)
  case Nil
  show ?case using assms
    by (simp add: process_lines_Cons_snd process_line_None del: process_lines.simps)
next
  case (Cons x pre)
  show ?case
  proof (cases "is_sentinel x")
    case True
    then show ?thesis by simp
  next
    case False
    then show ?thesis using Cons.IH
      by (simp add: process_lines_Cons_snd del: process_lines.simps)
  qed
qed

lemma read_loop_skip:
  assumes "\<And>fs'. snd (process_lines p (chunk_lines c) fs') =
                 snd (process_lines p (chunk_lines c') fs')"
  shows "snd (read_loop p (rs1 @ Chunk c # rs2) fs) = snd (read_loop p (rs1 @ Chunk c' # rs2) fs)"
proof (induction rs1 arbitrary: fs)
  case Nil
  show ?case by (simp add: read_loop_Chunk_snd assms del: read_loop.simps)
next
  case (Cons r rs1)
  show ?case
  proof (cases r)
    case (Chunk x)
    then show ?thesis using Cons.IH
      by (simp add: read_loop_Chunk_snd del: read_loop.simps)
  next
    case (Read_throws e)
    then show ?thesis by simp
  qed
qed

text \<open>
  Claim C6. A line the parser rejects is logged and skipped: the state is what it was
  before the line, the loop goes on with the next line, and the turn ends in the state
  it would have reached had the line not been in its chunk.
\<close>

theorem malformed_line_skipped:
  assumes "p (payload l) = None" and "\<not> is_sentinel l"
    and "chunk_lines c = pre @ l # post" and "chunk_lines c' = pre @ post"
  shows "process_line p l fs =
           ([JSON_parse (payload l), Console_error (str ''Error parsing chunk:'')], fs) \<and>
         snd (handleSend p prompt (Fetch_resolved status (Some (rs1 @ Chunk c # rs2))) s) =
         snd (handleSend p prompt (Fetch_resolved status (Some (rs1 @ Chunk c' # rs2))) s)"
proof -
  have "snd (process_lines p (chunk_lines c) fs') = snd (process_lines p (chunk_lines c') fs')" for fs'
    using process_lines_skip [where p = p and l = l, OF assms(1,2)] assms(3,4) by simp
  then have "snd (read_loop p (rs1 @ Chunk c # rs2) fs') = snd (read_loop p (rs1 @ Chunk c' # rs2) fs')" for fs'
    by (rule read_loop_skip)
  then show ?thesis using assms(1)
    by (simp add: handleSend_snd send_try_snd process_line_None)
qed

theorem malformed_line_skipped_witness:
  "sample_parser (payload (data_line json_bad)) = None \<and>
   \<not> is_sentinel (data_line json_bad) \<and>
   chunk_lines (chunk_of [data_line json_c1, data_line json_bad, data_line json_c2]) =
     [data_line json_c1] @ data_line json_bad # [data_line json_c2] \<and>
   chunk_lines (chunk_of [data_line json_c1, data_line json_c2]) =
     [data_line json_c1] @ [data_line json_c2] \<and>
   process_line sample_parser (data_line json_bad) (False, initial_state) =
     ([JSON_parse json_bad, Console_error (str ''Error parsing chunk:'')],
      (False, initial_state)) \<and>
   snd (handleSend sample_parser (str ''hello'')
          (Fetch_resolved 200 (Some ([] @
             Chunk (chunk_of [data_line json_c1, data_line json_bad, data_line json_c2])
             # [Chunk (chunk_of [data_line json_fin, done_line])]))) initial_state) =
     \<lparr>messages =
        [user_message (str ''hello''),
         \<lparr>content = str ''Hi'' @ str '' there'', isUser = False, reasoning = Some [],
          isComplete = Some True, showReasoning = Some True\<rparr>],
      isLoading = False, renderFailed = False, answerMessageIndexRef = 1, alreadyCreatedRef = True,
      reasoningAccumulatorRef = []\<rparr>"
proof -
  have h1: "sample_parser (payload (data_line json_bad)) = None" by simp
  have h2: "\<not> is_sentinel (data_line json_bad)" by simp
  have h3: "chunk_lines (chunk_of [data_line json_c1, data_line json_bad, data_line json_c2]) =
     [data_line json_c1] @ data_line json_bad # [data_line json_c2]"
    by (simp add: chunk_lines_chunk_of sample_lines_plain sample_bad_plain)
  have h4: "chunk_lines (chunk_of [data_line json_c1, data_line json_c2]) =
     [data_line json_c1] @ [data_line json_c2]"
    by (simp add: chunk_lines_chunk_of sample_lines_plain)
  have lines: "concat (map chunk_lines [chunk_of [data_line json_c1, data_line json_c2],
       chunk_of [data_line json_fin, done_line]]) =
     [] @ [data_line json_c1, data_line json_c2] @ [data_line json_fin, done_line]"
    by (simp add: chunk_lines_chunk_of sample_lines_plain)
  have clean: "cleanReasoningChain [] = []" by code_simp
  have res: "snd (handleSend sample_parser (str ''hello'')
          (Fetch_resolved 200 (Some (map Chunk [chunk_of [data_line json_c1, data_line json_c2],
       chunk_of [data_line json_fin, done_line]]))) initial_state) =
     \<lparr>messages =
        [user_message (str ''hello''),
         \<lparr>content = str ''Hi'' @ str '' there'', isUser = False, reasoning = Some [],
          isComplete = Some True, showReasoning = Some True\<rparr>],
      isLoading = False, renderFailed = False, answerMessageIndexRef = 1, alreadyCreatedRef = True,
      reasoningAccumulatorRef = []\<rparr>"
    using stream_turn_result [OF ok_200 lines _ sample_content_lines _ sample_finish_line
        sample_done_line, of "[]" "str ''hello''" initial_state]
    by (simp add: initial_state_def clean)
  show ?thesis
    using malformed_line_skipped [where p = sample_parser and l = "data_line json_bad",
        OF h1 h2 h3 h4, of "(False, initial_state)" "str ''hello''" 200 "[]"
           "[Chunk (chunk_of [data_line json_fin, done_line])]" initial_state]
      h1 h2 h3 h4 res
    by simp
qed

subsection \<open>Transport failures\<close>

lemma read_loop_append_unfinished:
  "snd (read_loop p (map Chunk cs) fs) = Inr (False, s') \<Longrightarrow>
   snd (read_loop p (map Chunk cs @ rest) fs) = snd (read_loop p rest (False, s'))"
proof (induction cs arbitrary: fs)
  case Nil
  then show ?case by simp
next
  case (Cons c cs)
  show ?case
  proof (cases "fst (snd (process_lines p (chunk_lines c) fs))")
    case True
    with Cons.prems show ?thesis
      by (auto simp: read_loop_Chunk_snd simp del: read_loop.simps)
  next
    case False
    with Cons.prems Cons.IH show ?thesis
      by (simp add: read_loop_Chunk_snd del: read_loop.simps)
  qed
qed

lemma handleSend_rejected:
  "snd (handleSend p prompt (Fetch_rejected e) s) =
     (start_turn prompt s)\<lparr>messages := messages s @ [user_message prompt, error_message e],
                            isLoading := False\<rparr>"
  by (simp add: handleSend_snd send_try_def start_turn_def)

lemma handleSend_http_error:
  "\<not> response_ok status \<Longrightarrow>
   snd (handleSend p prompt (Fetch_resolved status body) s) =
     (start_turn prompt s)\<lparr>messages := messages s @
          [user_message prompt,
           error_message (Error (str ''HTTP error! status: '' @ dec status))],
        isLoading := False\<rparr>"
  by (simp add: handleSend_snd send_try_def start_turn_def)

lemma handleSend_read_failure:
  assumes "response_ok status"
    and "snd (read_loop p (map Chunk cs) (False, start_turn prompt s)) = Inr (False, s')"
  shows "snd (handleSend p prompt
           (Fetch_resolved status (Some (map Chunk cs @ Read_throws e # later))) s) =
     s'\<lparr>messages := messages s' @ [error_message e], isLoading := False\<rparr>"
proof -
  have "snd (read_loop p (map Chunk cs @ Read_throws e # later) (False, start_turn prompt s)) =
     Inl (e, s')"
    using assms(2) by (simp add: read_loop_append_unfinished)
  with assms(1) show ?thesis by (simp add: handleSend_snd send_try_snd)
qed

lemma sample_one_content_chunk:
  "snd (read_loop sample_parser (map Chunk [chunk_of [data_line json_c1]]) (False, s)) =
     Inr (False, add_content (Some (str ''Hi'')) s)"
proof -
  have "chunk_lines (chunk_of [data_line json_c1]) = [data_line json_c1]"
    by (simp add: chunk_lines_chunk_of sample_lines_plain)
  moreover have "process_line sample_parser (data_line json_c1) (False, s) =
      ([JSON_parse json_c1], (False, add_content (Some (str ''Hi'')) s))"
    using process_line_content [OF sample_c1] by simp
  ultimately show ?thesis
    by (simp add: read_loop_Chunk_snd process_lines_Cons_snd del: read_loop.simps(3) process_lines.simps(2))
qed

text \<open>
  Claim C7. On a transport failure the turn aborts with one error message appended and
  the loading flag cleared. When \<open>fetch\<close> rejects, or the response is not 2xx, the list
  is the old list, the user's message and the error message. When a read rejects before
  the stream has ended, the list is the list as it was at that moment, the answer message
  in progress untouched and not completed, and the error message. The error message is
  not the user's and its content starts with \<open>Error: \<close>.
\<close>

theorem transport_failure:
  "snd (handleSend p prompt (Fetch_rejected e) s) =
     (start_turn prompt s)\<lparr>messages := messages s @ [user_message prompt, error_message e],
                            isLoading := False\<rparr> \<and>
   (\<not> response_ok st1 \<longrightarrow>
    snd (handleSend p prompt (Fetch_resolved st1 body) s) =
     (start_turn prompt s)\<lparr>messages := messages s @
          [user_message prompt, error_message (Error (str ''HTTP error! status: '' @ dec st1))],
        isLoading := False\<rparr>) \<and>
   (response_ok st2 \<and>
    snd (read_loop p (map Chunk cs) (False, start_turn prompt s)) = Inr (False, s') \<longrightarrow>
    snd (handleSend p prompt
           (Fetch_resolved st2 (Some (map Chunk cs @ Read_throws e # later))) s) =
     s'\<lparr>messages := messages s' @ [error_message e], isLoading := False\<rparr>) \<and>
   \<not> isUser (error_message e) \<and> prefix (str ''Error: '') (content (error_message e)) \<and>
   \<not> isLoading (snd (handleSend p prompt (Fetch_rejected e) s))"
  by (simp add: handleSend_rejected handleSend_http_error handleSend_read_failure
        error_message_def)

theorem transport_failure_witness:
  "\<not> response_ok 404 \<and> response_ok 200 \<and>
   snd (read_loop sample_parser (map Chunk [chunk_of [data_line json_c1]])
          (False, start_turn (str ''hello'') initial_state)) =
     Inr (False,
          \<lparr>messages = [user_message (str ''hello''), open_answer (str ''Hi'')],
           isLoading = True, renderFailed = False, answerMessageIndexRef = 1, alreadyCreatedRef = True,
           reasoningAccumulatorRef = []\<rparr>) \<and>
   snd (handleSend sample_parser (str ''hello'') (Fetch_rejected NotAnError) initial_state) =
     \<lparr>messages = [user_message (str ''hello''), error_message NotAnError],
      isLoading = False, renderFailed = False, answerMessageIndexRef = - 1, alreadyCreatedRef = False,
      reasoningAccumulatorRef = []\<rparr> \<and>
   snd (handleSend sample_parser (str ''hello'') (Fetch_resolved 404 None) initial_state) =
     \<lparr>messages = [user_message (str ''hello''),
                  error_message (Error (str ''HTTP error! status: '' @ str ''404''))],
      isLoading = False, renderFailed = False, answerMessageIndexRef = - 1, alreadyCreatedRef = False,
      reasoningAccumulatorRef = []\<rparr> \<and>
   snd (handleSend sample_parser (str ''hello'')
          (Fetch_resolved 200
             (Some (map Chunk [chunk_of [data_line json_c1]] @ Read_throws NotAnError # [])))
          initial_state) =
     \<lparr>messages = [user_message (str ''hello''), open_answer (str ''Hi''),
                  error_message NotAnError],
      isLoading = False, renderFailed = False, answerMessageIndexRef = 1, alreadyCreatedRef = True,
      reasoningAccumulatorRef = []\<rparr> \<and>
   content (error_message NotAnError) = str ''Error: '' @ str ''Unknown error''"
proof -
  let ?s' = "\<lparr>messages = [user_message (str ''hello''), open_answer (str ''Hi'')],
           isLoading = True, renderFailed = False, answerMessageIndexRef = 1, alreadyCreatedRef = True,
           reasoningAccumulatorRef = []\<rparr>"
  have rl: "snd (read_loop sample_parser (map Chunk [chunk_of [data_line json_c1]])
          (False, start_turn (str ''hello'') initial_state)) = Inr (False, ?s')"
    unfolding sample_one_content_chunk
    by (simp add: add_content_first start_turn_def initial_state_def)
  show ?thesis
    using transport_failure [of sample_parser "str ''hello''" NotAnError initial_state 404 None
        200 "[chunk_of [data_line json_c1]]" ?s' "[]"] rl
    by (simp add: start_turn_def initial_state_def dec_404 error_message_def)
qed


subsection \<open>The argument of the parser\<close>

lemma replace_first_none: "\<not> sublist pat s \<Longrightarrow> replace_first pat rep s = s"
proof (induction s)
  case Nil
  then show ?case by auto
next
  case (Cons x xs)
  have "\<not> prefix pat (x # xs)" using Cons.prems prefix_imp_sublist by blast
  moreover have "\<not> sublist pat xs" using Cons.prems by (auto simp: sublist_Cons_right)
  ultimately show ?case using Cons.IH by simp
qed

lemma replace_first_first:
  assumes "\<forall>a' b'. a @ pat @ b = a' @ pat @ b' \<longrightarrow> length a \<le> length a'"
  shows "replace_first pat rep (a @ pat @ b) = a @ rep @ b"
  using assms
proof (induction a)
  case Nil
  show ?case
  proof (cases "pat @ b")
    case Nil
    then show ?thesis by simp
  next
    case (Cons y ys)
    have "prefix pat (pat @ b)" by simp
    moreover have "drop (length pat) (pat @ b) = b" by simp
    ultimately show ?thesis using Cons by (metis append_Nil replace_first.simps(2))
  qed
next
  case (Cons x a)
  have "\<not> prefix pat (x # a @ pat @ b)"
  proof
    assume "prefix pat (x # a @ pat @ b)"
    then obtain b' where "(x # a) @ pat @ b = [] @ pat @ b'" by (auto simp: prefix_def)
    with Cons.prems have "length (x # a) \<le> length ([] :: jsstring)" by blast
    then show False by simp
  qed
  moreover have "\<forall>a' b'. a @ pat @ b = a' @ pat @ b' \<longrightarrow> length a \<le> length a'"
  proof (intro allI impI)
    fix a' b' assume "a @ pat @ b = a' @ pat @ b'"
    then have "(x # a) @ pat @ b = (x # a') @ pat @ b'" by simp
    with Cons.prems have "length (x # a) \<le> length (x # a')" by blast
    then show "length a \<le> length a'" by simp
  qed
  ultimately show ?case using Cons.IH by simp
qed

lemma process_line_parse: "\<exists>t. fst (process_line p l fs) = JSON_parse (payload l) # t"
  by (auto simp: process_line_def split: option.splits sum.splits)

lemma process_line_v2_parse: "\<exists>t. fst (process_line_v2 p cr l ls) = JSON_parse (payload l) # t"
  by (auto simp: process_line_v2_def split: option.splits sum.splits)

lemma sublist_data_json_c1: "\<not> sublist (str ''data: '') json_c1"
  by (simp add: json_c1_def str_def sublist_code)

lemma first_occurrence_sample:
  assumes "str ''x data: y data: z'' = a' @ str ''data: '' @ b'"
  shows "length (str ''x '') \<le> length a'"
proof (rule ccontr)
  assume "\<not> length (str ''x '') \<le> length a'"
  then have "length a' < 2" by (simp add: str_def)
  then have "length a' = 0 \<or> length a' = 1" by arith
  moreover from assms have "take 6 (drop (length a') (str ''x data: y data: z'')) = str ''data: ''"
    by (simp add: str_def)
  ultimately show False by (auto simp: str_def)
qed

text \<open>
  Claim C10. The argument of the parser is the line without the first occurrence of
  \<open>data: \<close>, wherever in the line that occurrence is; a line without any occurrence is
  passed as it is. Every line that is not the sentinel is passed to the parser, by both
  versions of the component.
\<close>

theorem payload_strips_first_occurrence:
  "(\<not> sublist (str ''data: '') line \<longrightarrow> payload line = line) \<and>
   (line = a @ str ''data: '' @ b \<and>
    (\<forall>a' b'. line = a' @ str ''data: '' @ b' \<longrightarrow> length a \<le> length a') \<longrightarrow>
    payload line = a @ b) \<and>
   (\<not> is_sentinel line \<longrightarrow>
    (\<exists>t. fst (process_lines p (line # rest) fs) = JSON_parse (payload line) # t) \<and>
    (\<exists>t. fst (process_lines_v2 p cr (line # rest) ls) = JSON_parse (payload line) # t))"
proof (intro conjI impI)
  assume "\<not> sublist (str ''data: '') line"
  then show "payload line = line" by (simp add: payload_def replace_first_none)
next
  assume "line = a @ str ''data: '' @ b \<and>
    (\<forall>a' b'. line = a' @ str ''data: '' @ b' \<longrightarrow> length a \<le> length a')"
  then show "payload line = a @ b"
    using replace_first_first [of a "str ''data: ''" b "[]"] by (simp add: payload_def)
next
  assume "\<not> is_sentinel line"
  then show "\<exists>t. fst (process_lines p (line # rest) fs) = JSON_parse (payload line) # t"
    using process_line_parse [of p line fs] by (auto simp: process_lines_Cons_fst simp del: process_lines.simps)
next
  assume "\<not> is_sentinel line"
  then show "\<exists>t. fst (process_lines_v2 p cr (line # rest) ls) = JSON_parse (payload line) # t"
    using process_line_v2_parse [of p cr line ls] by (auto split: prod.splits)
qed

theorem payload_strips_first_occurrence_witness:
  "\<not> sublist (str ''data: '') json_c1 \<and> \<not> is_sentinel json_c1 \<and>
   payload json_c1 = json_c1 \<and>
   (\<exists>t. fst (process_lines sample_parser (json_c1 # []) (False, initial_state)) =
          JSON_parse json_c1 # t) \<and>
   (\<exists>t. fst (process_lines_v2 sample_parser [] (json_c1 # []) ((False, - 1), initial_state_v2)) =
          JSON_parse json_c1 # t) \<and>
   str ''x data: y data: z'' = str ''x '' @ str ''data: '' @ str ''y data: z'' \<and>
   payload (str ''x data: y data: z'') = str ''x '' @ str ''y data: z''"
proof -
  have e: "str ''x data: y data: z'' = str ''x '' @ str ''data: '' @ str ''y data: z''"
    by (simp add: str_def)
  have m: "\<forall>a' b'. str ''x data: y data: z'' = a' @ str ''data: '' @ b' \<longrightarrow>
      length (str ''x '') \<le> length a'"
    using first_occurrence_sample by blast
  from payload_strips_first_occurrence [of json_c1 "[]" "[]" sample_parser "[]"
        "(False, initial_state)" "[]" "((False, - 1), initial_state_v2)"]
  have 1: "payload json_c1 = json_c1"
    and 2: "\<exists>t. fst (process_lines sample_parser (json_c1 # []) (False, initial_state)) =
          JSON_parse (payload json_c1) # t"
    and 3: "\<exists>t. fst (process_lines_v2 sample_parser [] (json_c1 # [])
               ((False, - 1), initial_state_v2)) = JSON_parse (payload json_c1) # t"
    using sublist_data_json_c1 sample_not_sentinel(7) by blast+
  from payload_strips_first_occurrence [of "str ''x data: y data: z''" "str ''x ''"
        "str ''y data: z''" sample_parser "[]" "(False, initial_state)" "[]"
        "((False, - 1), initial_state_v2)"]
  have 4: "payload (str ''x data: y data: z'') = str ''x '' @ str ''y data: z''"
    using e m by blast
  show ?thesis
    using 1 2 3 4 e sublist_data_json_c1 sample_not_sentinel(7) by (simp only: simp_thms)
qed


subsection \<open>The second version's loops\<close>

lemma process_lines_v2_Cons_snd:
  "\<not> is_sentinel l \<Longrightarrow>
   snd (process_lines_v2 p cr (l # ls) st) =
     snd (process_lines_v2 p cr ls (snd (process_line_v2 p cr l st)))"
  by (simp split: prod.splits)

lemma process_lines_v2_Cons_fst:
  "\<not> is_sentinel l \<Longrightarrow>
   fst (process_lines_v2 p cr (l # ls) st) =
     fst (process_line_v2 p cr l st) @
     fst (process_lines_v2 p cr ls (snd (process_line_v2 p cr l st)))"
  by (simp split: prod.splits)

lemma process_lines_v2_append:
  "process_lines_v2 p cr (a @ b) st =
     (case process_lines_v2 p cr a st of (t1, st1) \<Rightarrow>
      case process_lines_v2 p cr b st1 of (t2, st2) \<Rightarrow> (t1 @ t2, st2))"
  by (induction a arbitrary: st) (auto split: prod.splits)

lemma process_lines_v2_sentinel:
  "is_sentinel l \<Longrightarrow>
   process_lines_v2 p cr (pre @ l # post) st = process_lines_v2 p cr (pre @ post) st"
  by (simp add: process_lines_v2_append)

text \<open>
  The index the update at the end of the stream uses is never out of range.
\<close>

lemma handle_data_v2_index:
  assumes "index_ok st"
  shows "index_ok (case handle_data_v2 cr d st of Inl st' \<Rightarrow> st' | Inr st' \<Rightarrow> st')"
proof -
  obtain rcp idx s where st: "st = ((rcp, idx), s)" by (cases st) auto
  show ?thesis
  proof (cases "get (Some d) K_choices")
    case Inl then show ?thesis using assms by (simp add: handle_data_v2_def st)
  next
    case (Inr choices)
    note a = Inr
    show ?thesis
    proof (cases "if nullish choices then Inr None else get choices K_0")
      case Inl then show ?thesis using assms a by (simp add: handle_data_v2_def st)
    next
      case (Inr choice)
      note b = Inr
      show ?thesis
      proof (cases "if nullish choice then Inr None else get choice K_delta")
        case Inl then show ?thesis using assms a b by (simp add: handle_data_v2_def st)
      next
        case (Inr delta)
        note c = Inr
        show ?thesis
        proof (cases "if nullish delta then Inr None else get delta K_reasoning_content")
          case Inl then show ?thesis using assms a b c by (simp add: handle_data_v2_def st)
        next
          case (Inr rc)
          note e = Inr
          show ?thesis
          proof (cases "if nullish delta then Inr None else get delta K_content")
            case Inl then show ?thesis using assms a b c e
              by (simp add: handle_data_v2_def st index_ok_def Let_def split: option.splits)
          next
            case (Inr cc)
            then show ?thesis using assms a b c e
              by (simp add: handle_data_v2_def st index_ok_def Let_def split: option.splits)
          qed
        qed
      qed
    qed
  qed
qed

lemma process_line_v2_index:
  assumes "index_ok st"
  shows "index_ok (snd (process_line_v2 p cr l st))"
proof (cases "p (payload l)")
  case None
  with assms show ?thesis by (simp add: process_line_v2_def)
next
  case (Some d)
  with handle_data_v2_index [OF assms, of cr d] show ?thesis
    by (cases "handle_data_v2 cr d st") (simp_all add: process_line_v2_def)
qed

lemma process_lines_v2_index:
  "index_ok st \<Longrightarrow> index_ok (snd (process_lines_v2 p cr ls st))"
proof (induction ls arbitrary: st)
  case (Cons l ls)
  show ?case
  proof (cases "is_sentinel l")
    case True
    then show ?thesis using Cons by simp
  next
    case False
    then show ?thesis using Cons process_line_v2_index [of st p cr l]
      by (simp add: process_lines_v2_Cons_snd del: process_lines_v2.simps)
  qed
qed simp

lemma read_loop_v2_index:
  "index_ok st \<Longrightarrow> read_loop_v2 p cr reads st = (t, Inr st') \<Longrightarrow> index_ok st'"
proof (induction reads arbitrary: st t)
  case Nil
  then show ?case by simp
next
  case (Cons r reads)
  show ?case
  proof (cases r)
    case (Chunk c)
    obtain t1 st1 where pl: "process_lines_v2 p cr (chunk_lines c) st = (t1, st1)"
      by (metis prod.collapse)
    have "index_ok st1" using process_lines_v2_index [OF Cons.prems(1), of p cr "chunk_lines c"] pl
      by simp
    then show ?thesis using Cons.IH [of st1] Cons.prems(2) Chunk pl
      by (auto split: prod.splits)
  next
    case (Read_throws e)
    then show ?thesis using Cons.prems by simp
  qed
qed

lemma read_loop_v2_index_start:
  "read_loop_v2 p cr reads ((False, - 1), s) = (t, Inr st') \<Longrightarrow> index_ok st'"
  by (rule read_loop_v2_index [of "((False, - 1), s)"]) (simp_all add: index_ok_def)

lemma read_loop_v2_chunks:
  "read_loop_v2 p cr (map Chunk cs) st =
     (fst (process_lines_v2 p cr (concat (map chunk_lines cs)) st),
      Inr (snd (process_lines_v2 p cr (concat (map chunk_lines cs)) st)))"
  by (induction cs arbitrary: st) (auto simp: process_lines_v2_append split: prod.splits)

lemma send_try_v2_snd:
  "snd (send_try_v2 p cr cp (Fetch_resolved status (Some reads)) s) =
     (if \<not> response_ok status
      then Inl (Error (str ''HTTP error! status: '' @ dec status), s)
      else (case snd (read_loop_v2 p cr reads ((False, - 1), s)) of
              Inl es \<Rightarrow> Inl es
            | Inr st \<Rightarrow> Inr (final_update_v2 cr cp (snd (fst st)) (snd st))))"
  by (simp add: send_try_v2_def split: prod.splits sum.splits)

lemma handleSend_v2_snd:
  "snd (handleSend_v2 p prompt response s) =
     (case snd (send_try_v2 p (currentReasoning s) (currentResponse s) response
                  (start_turn_v2 prompt s)) of
        Inl (e, s') \<Rightarrow> s'\<lparr>messages := messages s' @ [error_message e], isLoading := False\<rparr>
      | Inr s' \<Rightarrow> s'\<lparr>isLoading := False\<rparr>)"
  by (simp add: handleSend_v2_def split: prod.splits sum.splits)

lemma parse_calls_append: "parse_calls (a @ b) = parse_calls a @ parse_calls b"
  by (induction a rule: parse_calls.induct) auto

lemma parse_calls_process_line: "parse_calls (fst (process_line p l fs)) = [payload l]"
  by (auto simp: process_line_def split: option.splits sum.splits)

lemma parse_calls_process_line_v2: "parse_calls (fst (process_line_v2 p cr l st)) = [payload l]"
  by (auto simp: process_line_v2_def split: option.splits sum.splits)

lemma parse_calls_process_lines:
  "\<forall>l\<in>set ls. \<not> is_sentinel l \<Longrightarrow>
   parse_calls (fst (process_lines p ls fs)) = map payload ls"
proof (induction ls arbitrary: fs)
  case (Cons l ls)
  then show ?case
    by (simp add: process_lines_Cons_fst parse_calls_append parse_calls_process_line
          del: process_lines.simps)
qed simp

lemma parse_calls_process_lines_v2:
  "parse_calls (fst (process_lines_v2 p cr ls st)) =
     map payload (filter (\<lambda>l. \<not> is_sentinel l) ls)"
proof (induction ls arbitrary: st)
  case (Cons l ls)
  show ?case
  proof (cases "is_sentinel l")
    case True
    then show ?thesis using Cons by simp
  next
    case False
    then show ?thesis using Cons
      by (simp add: process_lines_v2_Cons_fst parse_calls_append parse_calls_process_line_v2
            del: process_lines_v2.simps)
  qed
qed simp

subsection \<open>The sentinel line\<close>

lemma process_lines_stop:
  assumes "is_sentinel l" and "\<forall>x\<in>set pre. \<not> is_sentinel x"
  shows "process_lines p (pre @ l # post) fs =
     (fst (process_lines p pre fs), (True, snd (snd (process_lines p pre fs))))"
  using assms by (simp add: process_lines_append split: prod.splits)

lemma handleSend_v2_parse_calls:
  "response_ok status \<Longrightarrow>
   parse_calls (fst (handleSend_v2 p prompt (Fetch_resolved status (Some reads)) s)) =
     parse_calls (fst (read_loop_v2 p (currentReasoning s) reads
                         ((False, - 1), start_turn_v2 prompt s)))"
  by (auto simp: handleSend_v2_def send_try_v2_def parse_calls_append
        split: prod.splits sum.splits)

lemma parse_calls_read_loop_v2:
  "parse_calls (fst (read_loop_v2 p cr (map Chunk cs) st)) =
     map payload (filter (\<lambda>l. \<not> is_sentinel l) (concat (map chunk_lines cs)))"
  by (simp only: read_loop_v2_chunks fst_conv parse_calls_process_lines_v2)

text \<open>
  Claim C3, as the code has it. In the first version the first sentinel line of a chunk
  ends the processing of the stream: the lines before it in the chunk are parsed and
  processed, the sentinel line is not parsed, the rest of the chunk is dropped and no
  further read is made. In the second version the sentinel line is not parsed either,
  but it is only passed over: the rest of the chunk and the later chunks are processed
  as if the line were not there.
\<close>

theorem sentinel_line:
  assumes "is_sentinel l" and "\<forall>x\<in>set pre. \<not> is_sentinel x"
    and "chunk_lines c = pre @ l # post" and "chunk_lines c' = pre @ post"
  shows "read_loop p (Chunk c # later) fs =
           (fst (process_lines p pre fs), Inr (True, snd (snd (process_lines p pre fs)))) \<and>
         parse_calls (fst (read_loop p (Chunk c # later) fs)) = map payload pre \<and>
         read_loop_v2 p cr (Chunk c # later) st = read_loop_v2 p cr (Chunk c' # later) st \<and>
         parse_calls (fst (process_lines_v2 p cr (chunk_lines c) st)) =
           map payload (pre @ filter (\<lambda>x. \<not> is_sentinel x) post)"
proof -
  have 1: "read_loop p (Chunk c # later) fs =
           (fst (process_lines p pre fs), Inr (True, snd (snd (process_lines p pre fs))))"
    using process_lines_stop [OF assms(1,2), of p post fs] assms(3) by simp
  have 2: "parse_calls (fst (read_loop p (Chunk c # later) fs)) = map payload pre"
    unfolding 1 using assms(2) by (simp add: parse_calls_process_lines)
  have 3: "read_loop_v2 p cr (Chunk c # later) st = read_loop_v2 p cr (Chunk c' # later) st"
    using process_lines_v2_sentinel [OF assms(1), of p cr pre post st] assms(3,4) by simp
  have 4: "parse_calls (fst (process_lines_v2 p cr (chunk_lines c) st)) =
           map payload (pre @ filter (\<lambda>x. \<not> is_sentinel x) post)"
    using assms by (simp add: parse_calls_process_lines_v2 filter_id_conv)
  from 1 2 3 4 show ?thesis by blast
qed

theorem sentinel_line_witness:
  "is_sentinel done_line \<and> \<not> is_sentinel (data_line json_c1) \<and>
   chunk_lines (chunk_of [data_line json_c1, done_line, data_line json_c2]) =
     [data_line json_c1] @ done_line # [data_line json_c2] \<and>
   chunk_lines (chunk_of [data_line json_c1, data_line json_c2]) =
     [data_line json_c1] @ [data_line json_c2] \<and>
   read_loop sample_parser
     (Chunk (chunk_of [data_line json_c1, done_line, data_line json_c2])
        # [Chunk (chunk_of [data_line json_c2])]) (False, initial_state) =
     ([JSON_parse json_c1], Inr (True, add_content (Some (str ''Hi'')) initial_state)) \<and>
   parse_calls (fst (read_loop sample_parser
     (Chunk (chunk_of [data_line json_c1, done_line, data_line json_c2])
        # [Chunk (chunk_of [data_line json_c2])]) (False, initial_state))) = [json_c1] \<and>
   read_loop_v2 sample_parser []
     (Chunk (chunk_of [data_line json_c1, done_line, data_line json_c2])
        # [Chunk (chunk_of [data_line json_c2])]) ((False, - 1), initial_state_v2) =
   read_loop_v2 sample_parser []
     (Chunk (chunk_of [data_line json_c1, data_line json_c2])
        # [Chunk (chunk_of [data_line json_c2])]) ((False, - 1), initial_state_v2) \<and>
   parse_calls (fst (process_lines_v2 sample_parser []
      (chunk_lines (chunk_of [data_line json_c1, done_line, data_line json_c2]))
      ((False, - 1), initial_state_v2))) = [json_c1, json_c2]"
proof -
  have h1: "is_sentinel done_line" by (rule sample_done_line)
  have h2: "\<forall>x\<in>set [data_line json_c1]. \<not> is_sentinel x" by simp
  have h3: "chunk_lines (chunk_of [data_line json_c1, done_line, data_line json_c2]) =
     [data_line json_c1] @ done_line # [data_line json_c2]"
    by (simp add: chunk_lines_chunk_of sample_lines_plain)
  have h4: "chunk_lines (chunk_of [data_line json_c1, data_line json_c2]) =
     [data_line json_c1] @ [data_line json_c2]"
    by (simp add: chunk_lines_chunk_of sample_lines_plain)
  have pl: "process_lines sample_parser [data_line json_c1] (False, initial_state) =
     ([JSON_parse json_c1], (False, add_content (Some (str ''Hi'')) initial_state))"
    using process_line_content [OF sample_c1, of False initial_state] by simp
  show ?thesis
    using sentinel_line [where p = sample_parser and l = done_line and pre = "[data_line json_c1]",
        OF h1 h2 h3 h4, of "[Chunk (chunk_of [data_line json_c2])]" "(False, initial_state)"
           "[]" "((False, - 1), initial_state_v2)"]
      h1 h2 h3 h4 sample_not_sentinel
    unfolding pl
    by (simp del: read_loop.simps read_loop_v2.simps process_lines_v2.simps)
qed

theorem sentinel_line_counterexample:
  "parse_calls (fst (handleSend_v2 sample_parser (str ''hello'')
       (Fetch_resolved 200
          (Some (map Chunk [chunk_of [done_line, data_line json_c1],
                            chunk_of [data_line json_c2]])))
       initial_state_v2)) = [json_c1, json_c2]"
proof -
  have "concat (map chunk_lines [chunk_of [done_line, data_line json_c1],
                            chunk_of [data_line json_c2]]) =
        [done_line, data_line json_c1, data_line json_c2]"
    by (simp add: chunk_lines_chunk_of sample_lines_plain)
  then show ?thesis
    unfolding handleSend_v2_parse_calls [OF ok_200] parse_calls_read_loop_v2
    by (simp add: sample_done_line)
qed

subsection \<open>A stream without content\<close>

lemma append_one_cases:
  assumes "L1 @ L2 = X @ [b]"
  shows "(\<exists>Z. X = L1 @ Z \<and> L2 = Z @ [b]) \<or> (L1 = X @ [b] \<and> L2 = [])"
proof -
  from assms consider us where "L1 = X @ us" "us @ L2 = [b]" | us where "L1 @ us = X" "L2 = us @ [b]"
    by (auto simp: append_eq_append_conv2)
  then show ?thesis
  proof cases
    case 1
    from 1(2) have "(us = [] \<and> L2 = [b]) \<or> (us = [b] \<and> L2 = [])"
      by (cases us) auto
    with 1(1) show ?thesis by auto
  next
    case 2
    then show ?thesis by auto
  qed
qed

lemma reasoning_only_read_loop:
  assumes lines: "concat (map chunk_lines chunks) = ls_r @ [l_done]"
    and r: "list_all2 (reasoning_line p) ls_r rs" and d: "is_sentinel l_done"
  shows "snd (read_loop p (map Chunk chunks) (False, s)) =
     Inr (True, s\<lparr>reasoningAccumulatorRef := reasoningAccumulatorRef s @ concat rs\<rparr>)"
proof -
  let ?S = "s\<lparr>reasoningAccumulatorRef := reasoningAccumulatorRef s @ concat rs\<rparr>"
  have X: "snd (process_lines p ls_r (False, s)) = (False, ?S)"
    by (rule process_lines_reasoning [OF r])
  have quiet: "\<forall>l\<in>set ls_r. quiet_line p l"
    using list_all2_setD [OF r] by (auto intro: reasoning_line_quiet)
  then have ns: "\<forall>l\<in>set ls_r. \<not> is_sentinel l" by (simp add: quiet_line_def)
  have "snd (process_lines p (ls_r @ [l_done]) (False, s)) =
        snd (process_lines p [l_done] (snd (process_lines p ls_r (False, s))))"
    by (rule process_lines_append_snd [OF ns])
  also have "\<dots> = (True, ?S)"
    unfolding X by (simp add: process_lines_sentinel [OF d] del: process_lines.simps(2))
  finally have Xb: "snd (process_lines p (ls_r @ [l_done]) (False, s)) = (True, ?S)" .
  from read_loop_chunks [of False chunks p s] obtain L1 L2 where
    cat: "concat (map chunk_lines chunks) = L1 @ L2" and
    stop: "L2 = [] \<or> fst (snd (process_lines p L1 (False, s)))" and
    rl: "read_loop p (map Chunk chunks) (False, s) =
       (fst (process_lines p L1 (False, s)), Inr (snd (process_lines p L1 (False, s))))"
    by blast
  from cat lines have "L1 @ L2 = ls_r @ [l_done]" by simp
  from append_one_cases [OF this]
  have "snd (process_lines p L1 (False, s)) = (True, ?S)"
  proof (elim disjE exE conjE)
    fix Z assume Z: "ls_r = L1 @ Z" and L2: "L2 = Z @ [l_done]"
    then have "\<forall>l\<in>set L1. quiet_line p l" using quiet by simp
    then have "\<not> fst (snd (process_lines p L1 (False, s)))"
      by (simp add: process_lines_quiet)
    with stop L2 have False by simp
    then show ?thesis ..
  next
    assume "L1 = ls_r @ [l_done]"
    with Xb show ?thesis by simp
  qed
  with rl show ?thesis by simp
qed

lemma handle_data_v2_reasoning:
  assumes "reasoning_delta d r"
  shows "handle_data_v2 cr d (loc, s) = Inr (loc, s\<lparr>currentReasoning := currentReasoning s @ r\<rparr>)"
proof -
  from assms obtain ch dl where ch: "choice0 d = Some ch"
    and dl: "map_of ch (str ''delta'') = Some (JObj dl)"
    and rc: "map_of dl (str ''reasoning_content'') = Some (JStr r)"
    and c: "nullish (map_of dl (str ''content''))"
    by (auto simp: reasoning_delta_def event_fields_def split: option.splits json.splits)
  from choice0_get [OF ch] obtain choices where
    "get (Some d) K_choices = Inr choices" "\<not> nullish choices"
    "get choices K_0 = Inr (Some (JObj ch))" by blast
  then show ?thesis using dl rc c
    by (cases loc) (auto simp: handle_data_v2_def nullish_cases split: option.splits)
qed

lemma process_lines_v2_reasoning:
  "list_all2 (reasoning_line p) ls rs \<Longrightarrow>
   snd (process_lines_v2 p cr ls (loc, s)) =
     (loc, s\<lparr>currentReasoning := currentReasoning s @ concat rs\<rparr>)"
proof (induction ls rs arbitrary: s rule: list_all2_induct)
  case (Cons l ls r rs)
  from Cons(1) obtain d where ns: "\<not> is_sentinel l" and d: "p (payload l) = Some d"
    and rd: "reasoning_delta d r"
    by (auto simp: reasoning_line_def split: option.splits)
  have "snd (process_line_v2 p cr l (loc, s)) =
      (loc, s\<lparr>currentReasoning := currentReasoning s @ r\<rparr>)"
    using d handle_data_v2_reasoning [OF rd] by (simp add: process_line_v2_def)
  then show ?case using ns Cons.IH
    by (simp add: process_lines_v2_Cons_snd del: process_lines_v2.simps)
qed simp

lemma reasoning_only_v1:
  assumes "response_ok status"
    and "concat (map chunk_lines chunks) = ls_r @ [l_done]"
    and "list_all2 (reasoning_line p) ls_r rs" and "is_sentinel l_done"
  shows "snd (handleSend p prompt (Fetch_resolved status (Some (map Chunk chunks))) s) =
           s\<lparr>messages := messages s @ [user_message prompt], isLoading := False,
             answerMessageIndexRef := - 1, alreadyCreatedRef := False,
             reasoningAccumulatorRef := []\<rparr>"
  using assms(1) reasoning_only_read_loop [OF assms(2-4), of "start_turn prompt s"]
  by (simp add: handleSend_snd send_try_snd finalizeMessage_def start_turn_def Let_def)

lemma reasoning_only_v2:
  assumes "response_ok status"
    and "concat (map chunk_lines chunks) = ls_r @ [l_done]"
    and "list_all2 (reasoning_line p) ls_r rs" and "is_sentinel l_done"
  shows "snd (handleSend_v2 p prompt (Fetch_resolved status (Some (map Chunk chunks))) s2) =
           s2\<lparr>messages := messages s2 @
                [user_message prompt,
                 \<lparr>content = currentResponse s2, isUser = False, reasoning = None,
                  isComplete = Some True, showReasoning = Some False\<rparr>],
              isLoading := False, currentReasoning := concat rs, currentResponse := []\<rparr>"
proof -
  let ?s = "start_turn_v2 prompt s2"
  have "snd (process_lines_v2 p (currentReasoning s2) (ls_r @ [l_done]) ((False, - 1), ?s)) =
     ((False, - 1), ?s\<lparr>currentReasoning := currentReasoning ?s @ concat rs\<rparr>)"
    using process_lines_v2_sentinel [OF assms(4), of p "currentReasoning s2" ls_r "[]"]
      process_lines_v2_reasoning [OF assms(3)] by simp
  then have "snd (read_loop_v2 p (currentReasoning s2) (map Chunk chunks) ((False, - 1), ?s)) =
     Inr ((False, - 1), ?s\<lparr>currentReasoning := currentReasoning ?s @ concat rs\<rparr>)"
    by (simp add: read_loop_v2_chunks assms(2))
  then show ?thesis
    using assms(1)
    by (simp add: handleSend_v2_snd send_try_v2_snd final_update_v2_def start_turn_v2_def
          Let_def)
qed

lemma sample_reasoning_only_lines:
  "concat (map chunk_lines [chunk_of [data_line json_r1, data_line json_r2], chunk_of [done_line]])
     = [data_line json_r1, data_line json_r2] @ [done_line]"
  by (simp add: chunk_lines_chunk_of sample_lines_plain)

text \<open>
  Claim C8, as the code has it. A stream of reasoning deltas only, ended by the sentinel.
  In the first version no answer message is created and the reasoning is dropped: the list
  gains the user's message only. In the second version the update at the end of the
  stream appends a complete message without reasoning, whose content is the
  \<open>currentResponse\<close> the handler captured.
\<close>

theorem reasoning_only_stream:
  assumes "response_ok status"
    and "concat (map chunk_lines chunks) = ls_r @ [l_done]"
    and "list_all2 (reasoning_line p) ls_r rs" and "is_sentinel l_done"
  shows "snd (handleSend p prompt (Fetch_resolved status (Some (map Chunk chunks))) s) =
           s\<lparr>messages := messages s @ [user_message prompt], isLoading := False,
             answerMessageIndexRef := - 1, alreadyCreatedRef := False,
             reasoningAccumulatorRef := []\<rparr> \<and>
         snd (handleSend_v2 p prompt (Fetch_resolved status (Some (map Chunk chunks))) s2) =
           s2\<lparr>messages := messages s2 @
                [user_message prompt,
                 \<lparr>content = currentResponse s2, isUser = False, reasoning = None,
                  isComplete = Some True, showReasoning = Some False\<rparr>],
              isLoading := False, currentReasoning := concat rs, currentResponse := []\<rparr>"
  using reasoning_only_v1 [OF assms] reasoning_only_v2 [OF assms] by simp

theorem reasoning_only_stream_witness:
  "response_ok 200 \<and>
   concat (map chunk_lines [chunk_of [data_line json_r1, data_line json_r2], chunk_of [done_line]])
     = [data_line json_r1, data_line json_r2] @ [done_line] \<and>
   list_all2 (reasoning_line sample_parser) [data_line json_r1, data_line json_r2]
     [str ''So... '', str ''so what??''] \<and>
   is_sentinel done_line \<and>
   snd (handleSend sample_parser (str ''hello'')
       (Fetch_resolved 200
          (Some (map Chunk [chunk_of [data_line json_r1, data_line json_r2],
                            chunk_of [done_line]])))
       initial_state) =
     \<lparr>messages = [user_message (str ''hello'')], isLoading = False, renderFailed = False,
      answerMessageIndexRef = - 1, alreadyCreatedRef = False, reasoningAccumulatorRef = []\<rparr> \<and>
   snd (handleSend_v2 sample_parser (str ''hello'')
       (Fetch_resolved 200
          (Some (map Chunk [chunk_of [data_line json_r1, data_line json_r2],
                            chunk_of [done_line]])))
       initial_state_v2) =
     \<lparr>messages =
        [user_message (str ''hello''),
         \<lparr>content = [], isUser = False, reasoning = None, isComplete = Some True,
          showReasoning = Some False\<rparr>],
      isLoading = False, renderFailed = False, currentReasoning = str ''So... '' @ str ''so what??'',
      currentResponse = []\<rparr>"
  using reasoning_only_stream [OF ok_200 sample_reasoning_only_lines sample_reasoning_lines
      sample_done_line, of "str ''hello''" initial_state initial_state_v2]
    ok_200 sample_reasoning_only_lines sample_reasoning_lines sample_done_line
  by (simp add: initial_state_def initial_state_v2_def)

theorem reasoning_only_stream_counterexample:
  "messages (snd (handleSend_v2 sample_parser (str ''hello'')
       (Fetch_resolved 200
          (Some (map Chunk [chunk_of [data_line json_r1, data_line json_r2],
                            chunk_of [done_line]])))
       initial_state_v2)) =
     [user_message (str ''hello''),
      \<lparr>content = [], isUser = False, reasoning = None, isComplete = Some True,
       showReasoning = Some False\<rparr>]"
  using reasoning_only_v2 [OF ok_200 sample_reasoning_only_lines sample_reasoning_lines
      sample_done_line, of "str ''hello''" initial_state_v2]
  by (simp add: initial_state_v2_def)


subsection \<open>The answer message of a turn\<close>

lemma line_content_content: "content_line p l c \<Longrightarrow> line_content p l = Some c"
  by (auto simp: content_line_def line_content_def dest: classify_content_delta
        split: option.splits)

lemma line_content_reasoning: "reasoning_line p l r \<Longrightarrow> line_content p l = None"
  by (auto simp: reasoning_line_def line_content_def dest: classify_reasoning_delta
        split: option.splits)

lemma line_content_rejected: "p (payload l) = None \<Longrightarrow> line_content p l = None"
  by (simp add: line_content_def)

lemma string_line_content: "content_line p l c \<Longrightarrow> string_line p l"
  by (auto simp: content_line_def string_line_def string_content_delta split: option.splits)

lemma string_line_reasoning: "reasoning_line p l r \<Longrightarrow> string_line p l"
  by (auto simp: reasoning_line_def string_line_def string_reasoning_delta
        split: option.splits)

lemma string_line_rejected: "p (payload l) = None \<Longrightarrow> string_line p l"
  by (simp add: string_line_def)

text \<open>What a line does to the three things the answer message depends on.\<close>

lemma process_line_messages:
  assumes "string_line p l"
  shows "\<exists>s'. snd (snd (process_line p l (fin, s))) = add_content (line_content p l) s' \<and>
        messages s' = messages s \<and> answerMessageIndexRef s' = answerMessageIndexRef s \<and>
        alreadyCreatedRef s' = alreadyCreatedRef s"
proof (cases "p (payload l)")
  case None
  then show ?thesis
    by (auto simp: process_line_None line_content_def add_content_def)
next
  case d: (Some d)
  show ?thesis
  proof (cases "classify d")
    case None
    with d show ?thesis
      by (auto simp: process_line_TypeError line_content_def add_content_def)
  next
    case (Some ev)
    obtain f r c where ev: "ev = (f, r, c)" by (cases ev)
    have "snd (snd (process_line p l (fin, s))) = add_content c (add_reasoning r s)"
      using process_line_event [where p = p and l = l, OF d _ Some [unfolded ev]] assms d
      by (simp add: string_line_def)
    moreover have "line_content p l = c" using d Some ev by (simp add: line_content_def)
    moreover have "messages (add_reasoning r s) = messages s"
      "answerMessageIndexRef (add_reasoning r s) = answerMessageIndexRef s"
      "alreadyCreatedRef (add_reasoning r s) = alreadyCreatedRef s"
      by (simp_all add: add_reasoning_def split: option.splits)
    ultimately show ?thesis by blast
  qed
qed

lemma add_content_None [simp]: "add_content None s = s"
  by (simp add: add_content_def)

lemma process_lines_answer_next:
  assumes "\<forall>l\<in>set ls. \<not> is_sentinel l \<and> string_line p l"
    and "alreadyCreatedRef s" and "answerMessageIndexRef s = int i" and "i < length (messages s)"
  shows "messages (snd (snd (process_lines p ls (fin, s)))) =
           (messages s)[i := (messages s ! i)\<lparr>content :=
              content (messages s ! i) @ concat (content_deltas p ls)\<rparr>]"
  using assms
proof (induction ls arbitrary: fin s)
  case Nil
  then show ?case by simp
next
  case (Cons l ls)
  obtain t1 f1 s1 where pl: "process_line p l (fin, s) = (t1, (f1, s1))"
    by (metis prod.collapse)
  from Cons.prems(1) have sl: "string_line p l" and ns: "\<not> is_sentinel l" by simp_all
  from process_line_messages [OF sl, of fin s] pl obtain s' where
    s1: "s1 = add_content (line_content p l) s'" and
    s': "messages s' = messages s" "answerMessageIndexRef s' = answerMessageIndexRef s"
        "alreadyCreatedRef s' = alreadyCreatedRef s" by auto
  have inv: "alreadyCreatedRef s1 \<and> answerMessageIndexRef s1 = int i \<and> i < length (messages s1) \<and>
     messages s1 = (messages s)[i := (messages s ! i)\<lparr>content :=
        content (messages s ! i) @ (case line_content p l of None \<Rightarrow> [] | Some c \<Rightarrow> c)\<rparr>]"
  proof (cases "line_content p l")
    case None
    then show ?thesis using s1 s' Cons.prems by simp
  next
    case (Some c)
    then show ?thesis using s1 s' Cons.prems
      add_content_next [of s' i c] by simp
  qed
  have "messages (snd (snd (process_lines p ls (f1, s1)))) =
           (messages s1)[i := (messages s1 ! i)\<lparr>content :=
              content (messages s1 ! i) @ concat (content_deltas p ls)\<rparr>]"
    using Cons.prems inv by (intro Cons.IH) simp_all
  then show ?case using ns pl inv
    by (simp add: process_lines_Cons_snd split: option.splits
          del: process_lines.simps)
qed

lemma process_lines_answer_first:
  assumes "\<forall>l\<in>set ls. \<not> is_sentinel l \<and> string_line p l" and "\<not> alreadyCreatedRef s"
  shows "messages (snd (snd (process_lines p ls (fin, s)))) =
           messages s @ (if content_deltas p ls = [] then []
                         else [open_answer (concat (content_deltas p ls))])"
  using assms
proof (induction ls arbitrary: fin s)
  case Nil
  then show ?case by simp
next
  case (Cons l ls)
  obtain t1 f1 s1 where pl: "process_line p l (fin, s) = (t1, (f1, s1))"
    by (metis prod.collapse)
  from Cons.prems(1) have sl: "string_line p l" and ns: "\<not> is_sentinel l" by simp_all
  from process_line_messages [OF sl, of fin s] pl obtain s' where
    s1: "s1 = add_content (line_content p l) s'" and
    s': "messages s' = messages s" "answerMessageIndexRef s' = answerMessageIndexRef s"
        "alreadyCreatedRef s' = alreadyCreatedRef s" by auto
  show ?case
  proof (cases "line_content p l")
    case None
    then have "\<not> alreadyCreatedRef s1" "messages s1 = messages s"
      using s1 s' Cons.prems by simp_all
    moreover have "messages (snd (snd (process_lines p ls (f1, s1)))) =
           messages s1 @ (if content_deltas p ls = [] then []
                         else [open_answer (concat (content_deltas p ls))])"
      using Cons.prems \<open>\<not> alreadyCreatedRef s1\<close> by (intro Cons.IH) simp_all
    ultimately show ?thesis using ns pl None
      by (simp add: process_lines_Cons_snd del: process_lines.simps)
  next
    case (Some c)
    have s1': "s1 = s'\<lparr>messages := messages s' @ [open_answer c],
       answerMessageIndexRef := int (length (messages s')),
       alreadyCreatedRef := True\<rparr>"
      using s1 s' Some Cons.prems add_content_first [of s' c] by simp
    have "messages (snd (snd (process_lines p ls (f1, s1)))) =
           (messages s1)[length (messages s) := (messages s1 ! length (messages s))\<lparr>content :=
              content (messages s1 ! length (messages s)) @ concat (content_deltas p ls)\<rparr>]"
      using Cons.prems s1' s' by (intro process_lines_answer_next) simp_all
    then show ?thesis using ns pl Some s1' s'
      by (simp add: process_lines_Cons_snd open_answer_def
            del: process_lines.simps)
  qed
qed

text \<open>
  A reasoning delta that cannot be converted to a string takes the content delta of its
  event with it: after a content delta \<open>Hi\<close> and the event of \<open>json_odd\<close>, whose
  content is \<open>X\<close>, the answer is still \<open>Hi\<close>.
\<close>

lemma process_line_odd:
  "process_line sample_parser (data_line json_odd) (fin, s) =
     ([JSON_parse json_odd, Console_error (str ''Error parsing chunk:'')], (fin, s))"
proof -
  have "sample_parser json_odd =
      Some (delta_event [(str ''reasoning_content'', JObj [(str ''toString'', JNum (str ''1''))]),
                         (str ''content'', JStr (str ''X''))])"
    by (simp add: sample_parse_defs json_odd_def)
  then show ?thesis
    by (simp add: process_line_def handle_data_reasoning_throws)
qed

lemma odd_reasoning_delta:
  "\<not> string_line sample_parser (data_line json_odd) \<and>
   messages (snd (snd (process_lines sample_parser [data_line json_c1, data_line json_odd]
      (False, start_turn (str ''hello'') initial_state)))) =
     [user_message (str ''hello''), open_answer (str ''Hi'')]"
proof -
  have ns: "\<not> is_sentinel (data_line json_odd)"
    by (simp add: sample_parse_defs json_odd_def)
  have "\<not> string_line sample_parser (data_line json_odd)"
    by (simp add: string_line_def string_deltas_def read_event_def sample_parse_defs json_odd_def)
  then show ?thesis
    using ns
    by (simp add: process_lines_Cons_snd process_line_content [OF sample_c1] process_line_odd
          add_content_first start_turn_def initial_state_def del: process_lines.simps(2))
qed

text \<open>
  Claim C5, as the code has it. After any lines of a turn's stream that the parser
  rejects or turns into events with string deltas, the list is the list the turn started
  with, the user's message and, once a content delta has arrived, one open answer message
  whose content is all the content deltas so far, in order: the answer message is created
  by the first content delta and every later one is appended to it.
\<close>

theorem one_answer_per_turn:
  assumes "\<forall>l\<in>set ls. \<not> is_sentinel l \<and> string_line p l"
  shows "messages (snd (snd (process_lines p ls (False, start_turn prompt s)))) =
           messages s @ user_message prompt #
             (if content_deltas p ls = [] then []
              else [open_answer (concat (content_deltas p ls))])"
  using process_lines_answer_first [OF assms, of "start_turn prompt s" False]
  by (simp add: start_turn_def)

theorem one_answer_per_turn_witness:
  "\<not> is_sentinel (data_line json_r1) \<and> string_line sample_parser (data_line json_r1) \<and>
   \<not> is_sentinel (data_line json_c1) \<and> string_line sample_parser (data_line json_c1) \<and>
   \<not> is_sentinel (data_line json_bad) \<and> string_line sample_parser (data_line json_bad) \<and>
   \<not> is_sentinel (data_line json_c2) \<and> string_line sample_parser (data_line json_c2) \<and>
   messages (snd (snd (process_lines sample_parser
      [data_line json_r1, data_line json_c1, data_line json_bad, data_line json_c2]
      (False, start_turn (str ''hello'') initial_state)))) =
     [user_message (str ''hello''), open_answer (str ''Hi'' @ str '' there'')]"
proof -
  have sl: "string_line sample_parser (data_line json_r1)"
    "string_line sample_parser (data_line json_c1)"
    "string_line sample_parser (data_line json_bad)"
    "string_line sample_parser (data_line json_c2)"
    by (simp_all add: string_line_reasoning [OF sample_r1] string_line_content [OF sample_c1]
          string_line_content [OF sample_c2] string_line_rejected)
  then have h: "\<forall>l\<in>set [data_line json_r1, data_line json_c1, data_line json_bad,
      data_line json_c2]. \<not> is_sentinel l \<and> string_line sample_parser l" by simp
  have cd: "content_deltas sample_parser
      [data_line json_r1, data_line json_c1, data_line json_bad, data_line json_c2] =
      [str ''Hi'', str '' there'']"
    by (simp add: line_content_reasoning [OF sample_r1] line_content_content [OF sample_c1]
          line_content_content [OF sample_c2] line_content_rejected)
  show ?thesis
    using one_answer_per_turn [OF h, of "str ''hello''" initial_state] sl
    unfolding cd by (simp add: initial_state_def)
qed

theorem one_answer_per_turn_counterexample:
  "open_answers (messages (snd (snd (process_lines sample_parser [data_line json_c1]
      (False, start_turn (str ''again'')
         (snd (handleSend sample_parser (str ''hello'')
            (Fetch_resolved 200
               (Some [Chunk (chunk_of [data_line json_c1]), Read_throws NotAnError]))
            initial_state))))))) =
     [open_answer (str ''Hi''), open_answer (str ''Hi'')]"
proof -
  let ?s' = "\<lparr>messages = [user_message (str ''hello''), open_answer (str ''Hi'')],
           isLoading = True, renderFailed = False, answerMessageIndexRef = 1, alreadyCreatedRef = True,
           reasoningAccumulatorRef = []\<rparr>"
  have rl: "snd (read_loop sample_parser (map Chunk [chunk_of [data_line json_c1]])
          (False, start_turn (str ''hello'') initial_state)) = Inr (False, ?s')"
    unfolding sample_one_content_chunk
    by (simp add: add_content_first start_turn_def initial_state_def)
  have t1: "snd (handleSend sample_parser (str ''hello'')
            (Fetch_resolved 200
               (Some [Chunk (chunk_of [data_line json_c1]), Read_throws NotAnError]))
            initial_state) =
       ?s'\<lparr>messages := messages ?s' @ [error_message NotAnError], isLoading := False\<rparr>"
    using handleSend_read_failure [OF ok_200 rl, of NotAnError "[]"] by simp
  show ?thesis
    unfolding t1
    by (simp add: process_lines_Cons_snd process_line_content [OF sample_c1] add_content_first
          start_turn_def open_answers_def open_answer_def user_message_def error_message_def
          del: process_lines.simps(2))
qed


end
